theory Spec2Isabelle
  imports Complex_Main "HOL-Library.Word" "HOL-Library.Log_Nat" "HOL-Library.Sublist"
    "HOL-Library.Multiset"
begin

section \<open>Strings of the host language\<close>

text \<open>
  A string of the program is a sequence of 16-bit code units. \<open>ascii\<close> embeds a
  literal of the source, whose characters are all below 128.
\<close>

type_synonym js_string = "16 word list"

definition ascii :: "string \<Rightarrow> js_string" where
  "ascii s = map of_char s"

text \<open>
  \<open>String.prototype.trim\<close> strips WhiteSpace and LineTerminator code points from both
  ends: TAB, LF, VT, FF, CR, SP, NBSP, the Unicode space separators, LS, PS and the
  byte-order mark.
\<close>

definition is_white_space :: "16 word \<Rightarrow> bool" where
  "is_white_space c \<longleftrightarrow>
     (0x09 \<le> c \<and> c \<le> 0x0D) \<or> c = 0x20 \<or> c = 0xA0 \<or> c = 0x1680 \<or>
     (0x2000 \<le> c \<and> c \<le> 0x200A) \<or> c = 0x2028 \<or> c = 0x2029 \<or> c = 0x202F \<or>
     c = 0x205F \<or> c = 0x3000 \<or> c = 0xFEFF"

definition trim_start :: "js_string \<Rightarrow> js_string" where
  "trim_start s = dropWhile is_white_space s"

definition trim :: "js_string \<Rightarrow> js_string" where
  "trim s = rev (trim_start (rev (trim_start s)))"

text \<open>A string is truthy when it is not empty; \<open>!s\<close> is its negation.\<close>

definition truthy :: "js_string \<Rightarrow> bool" where
  "truthy s \<longleftrightarrow> s \<noteq> []"

section \<open>Numbers of the host language\<close>

text \<open>
  The \<open>number\<close> type of the source is IEEE 754 binary64. \<open>Finite m e\<close> is the value
  \<open>m * 2 ^ e\<close>, kept in the normal form that \<open>normal\<close> computes (\<open>m\<close> odd, or
  \<open>Finite 0 0\<close>), so that equal values are equal terms. The two zeros of binary64 are
  one value here, as they are for \<open>===\<close>.
\<close>

datatype number = NaN | PosInf | NegInf | Finite int int

function normal :: "int \<Rightarrow> int \<Rightarrow> number" where
  "normal m e =
     (if m = 0 then Finite 0 0
      else if even m then normal (m div 2) (e + 1)
      else Finite m e)"
  by pat_completeness auto
termination
  by (relation "measure (\<lambda>(m, e). nat \<bar>m\<bar>)") auto

declare normal.simps [simp del]

text \<open>\<open>shl n k\<close> is \<open>n * 2 ^ k\<close> for \<open>k \<ge> 0\<close> and \<open>n\<close> itself otherwise.\<close>

definition shl :: "int \<Rightarrow> int \<Rightarrow> int" where
  "shl n k = (if 0 \<le> k then n * 2 ^ nat k else n)"

text \<open>\<open>ilog2 p q\<close> is the integer \<open>d\<close> with \<open>2 ^ d \<le> p / q < 2 ^ (d + 1)\<close>, for positive \<open>p\<close>, \<open>q\<close>.\<close>

definition ilog2 :: "int \<Rightarrow> int \<Rightarrow> int" where
  "ilog2 p q =
     (let d = bitlen p - bitlen q
      in if shl q d \<le> shl p (- d) then d else d - 1)"

text \<open>The integer nearest to \<open>n / d\<close>, a tie going to the even one.\<close>

definition round_half_even :: "int \<Rightarrow> int \<Rightarrow> int" where
  "round_half_even n d =
     (let f = n div d; r = n mod d
      in if 2 * r < d then f
         else if d < 2 * r then f + 1
         else if even f then f else f + 1)"

text \<open>
  The binary64 value nearest to the positive fraction \<open>p / q\<close> (roundTiesToEven): a
  significand of at most 53 bits at the exponent \<open>t\<close>, which is never below that of the
  subnormal numbers; \<open>None\<close> when the rounded value reaches \<open>2 ^ 1024\<close>.
\<close>

definition round64_pos :: "int \<Rightarrow> int \<Rightarrow> (int \<times> int) option" where
  "round64_pos p q =
     (let t = max (ilog2 p q - 52) (- 1074);
          m = round_half_even (shl p (- t)) (shl q t)
      in if 971 \<le> t \<and> 2 ^ 53 \<le> shl m (t - 971) then None else Some (m, t))"

definition round64 :: "int \<Rightarrow> int \<Rightarrow> number" where
  "round64 p q =
     (if p = 0 then Finite 0 0
      else case round64_pos \<bar>p\<bar> q of
             None \<Rightarrow> (if 0 < p then PosInf else NegInf)
           | Some (m, t) \<Rightarrow> normal (if 0 < p then m else - m) t)"

text \<open>The operator \<open>+\<close> on two numbers.\<close>

fun js_add :: "number \<Rightarrow> number \<Rightarrow> number" where
  "js_add NaN _ = NaN"
| "js_add _ NaN = NaN"
| "js_add PosInf NegInf = NaN"
| "js_add NegInf PosInf = NaN"
| "js_add PosInf _ = PosInf"
| "js_add _ PosInf = PosInf"
| "js_add NegInf _ = NegInf"
| "js_add _ NegInf = NegInf"
| "js_add (Finite m1 e1) (Finite m2 e2) =
     (let e = min e1 e2; s = shl m1 (e1 - e) + shl m2 (e2 - e)
      in round64 (shl s e) (shl 1 (- e)))"

definition isNaN :: "number \<Rightarrow> bool" where
  "isNaN x \<longleftrightarrow> x = NaN"

definition isFinite :: "number \<Rightarrow> bool" where
  "isFinite x \<longleftrightarrow> (case x of Finite m e \<Rightarrow> True | _ \<Rightarrow> False)"

definition negate :: "number \<Rightarrow> number" where
  "negate x = (case x of NaN \<Rightarrow> NaN | PosInf \<Rightarrow> NegInf | NegInf \<Rightarrow> PosInf
               | Finite m e \<Rightarrow> Finite (- m) e)"

text \<open>
  The integer a number is, when it is one: \<open>is_integer x\<close> says that \<open>x\<close> is the
  number of the integer \<open>integer_value x\<close>.
\<close>

definition integer_value :: "number \<Rightarrow> int" where
  "integer_value x = (case x of Finite m e \<Rightarrow> shl m e | _ \<Rightarrow> 0)"

definition is_integer :: "number \<Rightarrow> bool" where
  "is_integer x \<longleftrightarrow> x = normal (integer_value x) 0"

text \<open>
  The finite values of binary64 among the terms of \<open>number\<close>: zero, or an odd mantissa
  of at most 53 bits with an exponent from \<open>-1074\<close> on and a magnitude below \<open>2 ^ 1024\<close>.
  These are the values that \<open>isFinite\<close> accepts at run time.
\<close>

definition finite_binary64 :: "number \<Rightarrow> bool" where
  "finite_binary64 x \<longleftrightarrow>
     (case x of
        Finite m e \<Rightarrow>
          (m = 0 \<and> e = 0) \<or> (odd m \<and> \<bar>m\<bar> < 2 ^ 53 \<and> - 1074 \<le> e \<and> bitlen \<bar>m\<bar> + e \<le> 1024)
      | _ \<Rightarrow> False)"

subsection \<open>parseFloat\<close>

text \<open>
  \<open>parseFloat\<close> drops leading white space and reads the longest prefix that is a
  StrDecimalLiteral: an optional sign, then \<open>Infinity\<close> or decimal digits with an
  optional fraction and an optional exponent. With no such prefix the result is \<open>NaN\<close>.
\<close>

definition is_digit :: "16 word \<Rightarrow> bool" where
  "is_digit c \<longleftrightarrow> 0x30 \<le> c \<and> c \<le> 0x39"

definition digit_value :: "16 word \<Rightarrow> int" where
  "digit_value c = uint c - 48"

definition digits_value :: "js_string \<Rightarrow> int" where
  "digits_value ds = foldl (\<lambda>n c. 10 * n + digit_value c) 0 ds"

text \<open>The value of \<open>n * 10 ^ x\<close> as a number.\<close>

definition decimal_number :: "int \<Rightarrow> int \<Rightarrow> number" where
  "decimal_number n x =
     (if 0 \<le> x then round64 (n * 10 ^ nat x) 1 else round64 n (10 ^ nat (- x)))"

text \<open>
  The exponent part at the head of a string, or 0 when what is there is not a
  complete exponent part (the prefix then ends before it).
\<close>

definition exponent_part :: "js_string \<Rightarrow> int" where
  "exponent_part cs =
     (case cs of
        [] \<Rightarrow> 0
      | c # r \<Rightarrow>
          if c = 0x65 \<or> c = 0x45 then
            (let neg = (case r of [] \<Rightarrow> False | s # _ \<Rightarrow> s = 0x2D);
                 r' = (case r of [] \<Rightarrow> [] | s # u \<Rightarrow> if s = 0x2B \<or> s = 0x2D then u else r);
                 ds = takeWhile is_digit r'
             in if ds = [] then 0 else if neg then - digits_value ds else digits_value ds)
          else 0)"

definition unsigned_decimal :: "js_string \<Rightarrow> number" where
  "unsigned_decimal u =
     (if prefix (ascii ''Infinity'') u then PosInf
      else
        let i = takeWhile is_digit u;
            r = dropWhile is_digit u;
            dot = (case r of [] \<Rightarrow> False | c # _ \<Rightarrow> c = 0x2E);
            f = (if dot then takeWhile is_digit (tl r) else []);
            r' = (if dot \<and> (i \<noteq> [] \<or> f \<noteq> []) then dropWhile is_digit (tl r) else r)
        in if i = [] \<and> f = [] then NaN
           else decimal_number (digits_value (i @ f)) (exponent_part r' - int (length f)))"

definition parseFloat :: "js_string \<Rightarrow> number" where
  "parseFloat s =
     (case trim_start s of
        [] \<Rightarrow> NaN
      | c # u \<Rightarrow>
          if c = 0x2D then negate (unsigned_decimal u)
          else if c = 0x2B then unsigned_decimal u
          else unsigned_decimal (c # u))"

subsection \<open>Number::toString\<close>

text \<open>
  The decimal text of a number, which \<open>JSON.stringify\<close> writes for a finite one: with
  \<open>s * 10 ^ k\<close> the decimal of fewest digits whose nearest number is the given one
  (the closest such decimal when there are several), laid out as plain digits, with a
  decimal point, or with an exponent by the position \<open>n\<close> of the point.
\<close>

function digits_of :: "int \<Rightarrow> js_string" where
  "digits_of n =
     (if n < 10 then [word_of_int (48 + n)]
      else digits_of (n div 10) @ [word_of_int (48 + n mod 10)])"
  by pat_completeness auto
termination
  by (relation "measure nat") auto

declare digits_of.simps [simp del]

definition ilog10 :: "int \<Rightarrow> int \<Rightarrow> int" where
  "ilog10 p q =
     (if q \<le> p then int (length (digits_of (p div q))) - 1
      else let j = int (length (digits_of (q div p)))
           in if q \<le> p * 10 ^ nat (j - 1) then 1 - j else - j)"

text \<open>\<open>p / (q * 10 ^ k)\<close> as a fraction of integers.\<close>

definition scaled :: "int \<Rightarrow> int \<Rightarrow> int \<Rightarrow> int \<times> int" where
  "scaled p q k = (if 0 \<le> k then (p, q * 10 ^ nat k) else (p * 10 ^ nat (- k), q))"

text \<open>
  The decimals \<open>s * 10 ^ k\<close> next to \<open>p / q\<close> on either side; \<open>best\<close> is one that
  reads back as \<open>x\<close>, the nearer one (the even one at a tie) when both do.
\<close>

definition best :: "number \<Rightarrow> int \<Rightarrow> int \<Rightarrow> int \<Rightarrow> int option" where
  "best x p q k =
     (let (n, d) = scaled p q k;
          lo = n div d; hi = lo + 1; r = n mod d;
          ok_lo = (0 < lo \<and> decimal_number lo k = x);
          ok_hi = (decimal_number hi k = x)
      in if ok_lo \<and> ok_hi then
           Some (if 2 * r < d then lo else if d < 2 * r then hi else if even lo then lo else hi)
         else if ok_lo then Some lo
         else if ok_hi then Some hi
         else None)"

text \<open>
  The search goes from the decade of \<open>p / q\<close> down to \<open>10 ^ - 1074\<close>, where the decimal
  expansion of every finite binary64 number has ended.
\<close>

function shortest :: "number \<Rightarrow> int \<Rightarrow> int \<Rightarrow> int \<Rightarrow> int \<times> int" where
  "shortest x p q k =
     (case best x p q k of
        Some s \<Rightarrow> (s, k)
      | None \<Rightarrow>
          if - 1074 < k then shortest x p q (k - 1)
          else (fst (scaled p q (- 1074)) div snd (scaled p q (- 1074)), - 1074))"
  by pat_completeness auto
termination
  by (relation "measure (\<lambda>(x, p, q, k). nat (k + 1074))") auto

declare shortest.simps [simp del]

definition format_decimal :: "int \<Rightarrow> int \<Rightarrow> js_string" where
  "format_decimal s k =
     (let ds = digits_of s; n = int (length ds) + k
      in if 0 \<le> k \<and> n \<le> 21 then ds @ replicate (nat k) 0x30
         else if 0 < n \<and> n \<le> 21 then take (nat n) ds @ [0x2E] @ drop (nat n) ds
         else if - 6 < n \<and> n \<le> 0 then [0x30, 0x2E] @ replicate (nat (- n)) 0x30 @ ds
         else (if length ds = 1 then ds else [hd ds, 0x2E] @ tl ds)
              @ [0x65, if 0 \<le> n - 1 then 0x2B else 0x2D] @ digits_of \<bar>n - 1\<bar>)"

definition Number_toString :: "number \<Rightarrow> js_string" where
  "Number_toString x =
     (case x of
        NaN \<Rightarrow> ascii ''NaN''
      | PosInf \<Rightarrow> ascii ''Infinity''
      | NegInf \<Rightarrow> ascii ''-Infinity''
      | Finite m e \<Rightarrow>
          if m = 0 then ascii ''0''
          else
            let p = shl \<bar>m\<bar> e; q = shl 1 (- e);
                (s, k) = shortest (Finite \<bar>m\<bar> e) p q (ilog10 p q + 1)
            in (if m < 0 then [0x2D] else []) @ format_decimal s k)"

section \<open>Values and JSON\<close>

text \<open>
  The values that \<open>JSON.parse\<close> returns and \<open>JSON.stringify\<close> writes. The properties
  of an object are listed in the order in which the object enumerates them.
\<close>

datatype js_value =
  Null | Boolean bool | Number number | String js_string
| Array "js_value list" | Object "(js_string \<times> js_value) list"

subsection \<open>JSON.stringify\<close>

text \<open>
  QuoteJSONString: the two-character escapes, \<open>\\uXXXX\<close> for the other control
  characters and for a surrogate that is not part of a pair, every other code unit as
  it is.
\<close>

definition hex_digit :: "nat \<Rightarrow> 16 word" where
  "hex_digit n = (if n < 10 then of_nat (48 + n) else of_nat (87 + n))"

definition unicode_escape :: "16 word \<Rightarrow> js_string" where
  "unicode_escape c =
     (let n = unat c
      in [0x5C, 0x75, hex_digit (n div 4096), hex_digit (n div 256 mod 16),
          hex_digit (n div 16 mod 16), hex_digit (n mod 16)])"

definition is_high_surrogate :: "16 word \<Rightarrow> bool" where
  "is_high_surrogate c \<longleftrightarrow> 0xD800 \<le> c \<and> c \<le> 0xDBFF"

definition is_low_surrogate :: "16 word \<Rightarrow> bool" where
  "is_low_surrogate c \<longleftrightarrow> 0xDC00 \<le> c \<and> c \<le> 0xDFFF"

definition short_escape :: "16 word \<Rightarrow> 16 word option" where
  "short_escape c =
     (if c = 0x08 then Some 0x62 else if c = 0x09 then Some 0x74
      else if c = 0x0A then Some 0x6E else if c = 0x0C then Some 0x66
      else if c = 0x0D then Some 0x72 else if c = 0x22 then Some 0x22
      else if c = 0x5C then Some 0x5C else None)"

fun quote_units :: "js_string \<Rightarrow> js_string" where
  "quote_units [] = []"
| "quote_units (c # cs) =
     (case short_escape c of
        Some e \<Rightarrow> [0x5C, e] @ quote_units cs
      | None \<Rightarrow>
          if c < 0x20 then unicode_escape c @ quote_units cs
          else if is_high_surrogate c then
            (case cs of
               [] \<Rightarrow> unicode_escape c
             | d # ds \<Rightarrow>
                 if is_low_surrogate d then c # d # quote_units ds
                 else unicode_escape c @ quote_units cs)
          else if is_low_surrogate c then unicode_escape c @ quote_units cs
          else c # quote_units cs)"

definition QuoteJSONString :: "js_string \<Rightarrow> js_string" where
  "QuoteJSONString s = [0x22] @ quote_units s @ [0x22]"

fun join :: "js_string list \<Rightarrow> js_string" where
  "join [] = []"
| "join [x] = x"
| "join (x # y # ys) = x @ [0x2C] @ join (y # ys)"

fun JSON_stringify :: "js_value \<Rightarrow> js_string" where
  "JSON_stringify Null = ascii ''null''"
| "JSON_stringify (Boolean b) = (if b then ascii ''true'' else ascii ''false'')"
| "JSON_stringify (Number x) = (if isFinite x then Number_toString x else ascii ''null'')"
| "JSON_stringify (String s) = QuoteJSONString s"
| "JSON_stringify (Array vs) = [0x5B] @ join (map JSON_stringify vs) @ [0x5D]"
| "JSON_stringify (Object ms) =
     [0x7B] @ join (map (\<lambda>m. QuoteJSONString (fst m) @ [0x3A] @ JSON_stringify (snd m)) ms) @ [0x7D]"

subsection \<open>JSON.parse\<close>

text \<open>
  A parser of the JSON grammar. Each function returns the value it read and the rest of
  the text, or \<open>None\<close> where \<open>JSON.parse\<close> throws a SyntaxError.
\<close>

definition is_json_ws :: "16 word \<Rightarrow> bool" where
  "is_json_ws c \<longleftrightarrow> c = 0x20 \<or> c = 0x09 \<or> c = 0x0A \<or> c = 0x0D"

definition skip_ws :: "js_string \<Rightarrow> js_string" where
  "skip_ws cs = dropWhile is_json_ws cs"

definition hex_value :: "16 word \<Rightarrow> nat option" where
  "hex_value c =
     (if 0x30 \<le> c \<and> c \<le> 0x39 then Some (unat c - 48)
      else if 0x61 \<le> c \<and> c \<le> 0x66 then Some (unat c - 87)
      else if 0x41 \<le> c \<and> c \<le> 0x46 then Some (unat c - 55)
      else None)"

definition unescape :: "16 word \<Rightarrow> 16 word option" where
  "unescape e =
     (if e = 0x22 then Some 0x22 else if e = 0x5C then Some 0x5C
      else if e = 0x2F then Some 0x2F else if e = 0x62 then Some 0x08
      else if e = 0x66 then Some 0x0C else if e = 0x6E then Some 0x0A
      else if e = 0x72 then Some 0x0D else if e = 0x74 then Some 0x09
      else None)"

fun scan_string :: "js_string \<Rightarrow> (js_string \<times> js_string) option" where
  "scan_string [] = None"
| "scan_string (c # cs) =
     (if c = 0x22 then Some ([], cs)
      else if c = 0x5C then
        (case cs of
           [] \<Rightarrow> None
         | e # r \<Rightarrow>
             if e = 0x75 then
               (case r of
                  h1 # h2 # h3 # h4 # r' \<Rightarrow>
                    (case (hex_value h1, hex_value h2, hex_value h3, hex_value h4) of
                       (Some a, Some b, Some c', Some d) \<Rightarrow>
                         map_option (\<lambda>(s, t). (of_nat (((a * 16 + b) * 16 + c') * 16 + d) # s, t))
                           (scan_string r')
                     | _ \<Rightarrow> None)
                | _ \<Rightarrow> None)
             else
               (case unescape e of
                  None \<Rightarrow> None
                | Some u \<Rightarrow> map_option (\<lambda>(s, t). (u # s, t)) (scan_string r)))
      else if c < 0x20 then None
      else map_option (\<lambda>(s, t). (c # s, t)) (scan_string cs))"

definition scan_exponent :: "js_string \<Rightarrow> (int \<times> js_string) option" where
  "scan_exponent cs =
     (case cs of
        [] \<Rightarrow> Some (0, cs)
      | c # r \<Rightarrow>
          if c = 0x65 \<or> c = 0x45 then
            (let neg = (case r of [] \<Rightarrow> False | s # _ \<Rightarrow> s = 0x2D);
                 r' = (case r of [] \<Rightarrow> [] | s # u \<Rightarrow> if s = 0x2B \<or> s = 0x2D then u else r);
                 ds = takeWhile is_digit r'
             in if ds = [] then None
                else Some (if neg then - digits_value ds else digits_value ds, dropWhile is_digit r'))
          else Some (0, cs))"

definition scan_number :: "js_string \<Rightarrow> (number \<times> js_string) option" where
  "scan_number cs =
     (let neg = (case cs of [] \<Rightarrow> False | c # _ \<Rightarrow> c = 0x2D);
          r1 = (if neg then tl cs else cs);
          i = takeWhile is_digit r1;
          r2 = dropWhile is_digit r1;
          dot = (case r2 of [] \<Rightarrow> False | c # _ \<Rightarrow> c = 0x2E);
          f = (if dot then takeWhile is_digit (tl r2) else []);
          r3 = (if dot then dropWhile is_digit (tl r2) else r2)
      in if i = [] \<or> (hd i = 0x30 \<and> length i \<noteq> 1) \<or> (dot \<and> f = []) then None
         else case scan_exponent r3 of
                None \<Rightarrow> None
              | Some (x, r4) \<Rightarrow>
                  Some ((if neg then negate else (\<lambda>v. v))
                          (decimal_number (digits_value (i @ f)) (x - int (length f))), r4))"

text \<open>
  Defining a property: an existing key keeps its place, a new array index goes among the
  indices in ascending order, any other new key goes to the end.
\<close>

definition is_array_index :: "js_string \<Rightarrow> bool" where
  "is_array_index k \<longleftrightarrow>
     k \<noteq> [] \<and> list_all is_digit k \<and> (hd k \<noteq> 0x30 \<or> length k = 1) \<and> digits_value k < 2 ^ 32 - 1"

fun set_property :: "(js_string \<times> js_value) list \<Rightarrow> js_string \<Rightarrow> js_value \<Rightarrow> (js_string \<times> js_value) list" where
  "set_property [] k v = [(k, v)]"
| "set_property (m # ms) k v =
     (if fst m = k then (k, v) # ms
      else if is_array_index k \<and> (\<not> is_array_index (fst m) \<or> digits_value k < digits_value (fst m))
      then (k, v) # m # ms
      else m # set_property ms k v)"

lemma skip_ws_shorter: "skip_ws cs = c # r \<Longrightarrow> length r < length cs"
  using length_dropWhile_le [of is_json_ws cs] by (simp add: skip_ws_def)

function parse_value :: "js_string \<Rightarrow> (js_value \<times> js_string) option"
  and parse_elements :: "js_value list \<Rightarrow> js_string \<Rightarrow> (js_value \<times> js_string) option"
  and parse_members :: "(js_string \<times> js_value) list \<Rightarrow> js_string \<Rightarrow> (js_value \<times> js_string) option"
where
  "parse_value cs =
     (case skip_ws cs of
        [] \<Rightarrow> None
      | c # r \<Rightarrow>
          if c = 0x5B then
            (case skip_ws r of
               [] \<Rightarrow> None
             | d # r' \<Rightarrow> if d = 0x5D then Some (Array [], r') else parse_elements [] r)
          else if c = 0x7B then
            (case skip_ws r of
               [] \<Rightarrow> None
             | d # r' \<Rightarrow> if d = 0x7D then Some (Object [], r') else parse_members [] r)
          else if c = 0x22 then map_option (\<lambda>(s, t). (String s, t)) (scan_string r)
          else if prefix (ascii ''true'') (c # r) then Some (Boolean True, drop 4 (c # r))
          else if prefix (ascii ''false'') (c # r) then Some (Boolean False, drop 5 (c # r))
          else if prefix (ascii ''null'') (c # r) then Some (Null, drop 4 (c # r))
          else map_option (\<lambda>(x, t). (Number x, t)) (scan_number (c # r)))"
| "parse_elements acc cs =
     (case parse_value cs of
        None \<Rightarrow> None
      | Some (v, r) \<Rightarrow>
          if length r < length cs then
            (case skip_ws r of
               [] \<Rightarrow> None
             | d # r' \<Rightarrow>
                 if d = 0x2C then parse_elements (acc @ [v]) r'
                 else if d = 0x5D then Some (Array (acc @ [v]), r')
                 else None)
          else None)"
| "parse_members acc cs =
     (case skip_ws cs of
        [] \<Rightarrow> None
      | q # r \<Rightarrow>
          if q = 0x22 then
            (case scan_string r of
               None \<Rightarrow> None
             | Some (k, r1) \<Rightarrow>
                 (case skip_ws r1 of
                    [] \<Rightarrow> None
                  | colon # r2 \<Rightarrow>
                      if colon = 0x3A \<and> length r2 < length cs then
                        (case parse_value r2 of
                           None \<Rightarrow> None
                         | Some (v, r3) \<Rightarrow>
                             if length r3 < length cs then
                               (case skip_ws r3 of
                                  [] \<Rightarrow> None
                                | d # r4 \<Rightarrow>
                                    if d = 0x2C then parse_members (set_property acc k v) r4
                                    else if d = 0x7D then Some (Object (set_property acc k v), r4)
                                    else None)
                             else None)
                      else None))
          else None)"
  by pat_completeness auto
termination
  apply (relation "measure (\<lambda>x. case x of Inl cs \<Rightarrow> 2 * length cs
                              | Inr (Inl (acc, cs)) \<Rightarrow> 2 * length cs + 1
                              | Inr (Inr (acc, cs)) \<Rightarrow> 2 * length cs + 1)")
  apply (auto dest: skip_ws_shorter)
  done

declare parse_value.simps [simp del] parse_elements.simps [simp del] parse_members.simps [simp del]

definition JSON_parse :: "js_string \<Rightarrow> js_value option" where
  "JSON_parse text =
     (case parse_value text of
        None \<Rightarrow> None
      | Some (v, r) \<Rightarrow> if skip_ws r = [] then Some v else None)"

section \<open>types.ts\<close>

datatype TransactionType = MyMoney | DadsDebt

record Transaction =
  tx_id :: js_string
  amount :: number
  description :: js_string
  date :: js_string
  tx_type :: TransactionType

section \<open>The App component\<close>

text \<open>
  \<open>Array.prototype.sort\<close> with a comparison function is a stable sort: \<open>a\<close> comes before
  \<open>b\<close> when \<open>comparefn a b < 0\<close>, and elements that compare equal keep their order.
  Only the sign of the comparison is looked at, so it is an integer here.
\<close>

fun insert_sorted :: "('a \<Rightarrow> 'a \<Rightarrow> int) \<Rightarrow> 'a \<Rightarrow> 'a list \<Rightarrow> 'a list" where
  "insert_sorted comparefn x [] = [x]"
| "insert_sorted comparefn x (y # ys) =
     (if comparefn x y \<le> 0 then x # y # ys else y # insert_sorted comparefn x ys)"

definition js_sort :: "('a \<Rightarrow> 'a \<Rightarrow> int) \<Rightarrow> 'a list \<Rightarrow> 'a list" where
  "js_sort comparefn xs = foldr (insert_sorted comparefn) xs []"

text \<open>\<open>Array.prototype.reduce\<close> with an initial value.\<close>

definition reduce :: "('b \<Rightarrow> 'a \<Rightarrow> 'b) \<Rightarrow> 'b \<Rightarrow> 'a list \<Rightarrow> 'b" where
  "reduce f init xs = foldl f init xs"

text \<open>The state of the component: the collection and the three form fields.\<close>

record App =
  transactions :: "Transaction list"
  newAmount :: js_string
  newDescription :: js_string
  newType :: TransactionType

datatype alert = FillAllFields

text \<open>
  The comparison function of line 106. \<open>getTime s\<close> stands for
  \<open>new Date(s).getTime()\<close>, the time value of a date string in milliseconds.
\<close>

definition newest_first :: "(js_string \<Rightarrow> int) \<Rightarrow> Transaction \<Rightarrow> Transaction \<Rightarrow> int" where
  "newest_first getTime a b = getTime (date b) - getTime (date a)"

text \<open>
  \<open>handleAddTransaction\<close>: \<open>uuid\<close> is what \<open>crypto.randomUUID()\<close> returns and \<open>now\<close>
  what \<open>new Date().toISOString()\<close> returns at the call. \<open>Inl\<close> is the branch that
  alerts and returns without touching the state.
\<close>

definition newTransaction :: "js_string \<Rightarrow> number \<Rightarrow> js_string \<Rightarrow> App \<Rightarrow> Transaction" where
  "newTransaction uuid parsed now st =
     \<lparr>tx_id = uuid, amount = parsed, description = newDescription st, date = now,
      tx_type = newType st\<rparr>"

definition handleAddTransaction ::
  "(js_string \<Rightarrow> int) \<Rightarrow> js_string \<Rightarrow> js_string \<Rightarrow> App \<Rightarrow> alert + App" where
  "handleAddTransaction getTime uuid now st =
     (let parsed = parseFloat (newAmount st)
      in if \<not> truthy (trim (newDescription st)) \<or> isNaN parsed then Inl FillAllFields
         else Inr (st\<lparr>transactions :=
                         js_sort (newest_first getTime)
                           (transactions st @ [newTransaction uuid parsed now st]),
                       newAmount := [], newDescription := []\<rparr>))"

text \<open>
  \<open>handleDeleteTransaction\<close>: \<open>confirmed\<close> is the answer of \<open>window.confirm\<close>.
\<close>

definition handleDeleteTransaction :: "bool \<Rightarrow> js_string \<Rightarrow> App \<Rightarrow> App" where
  "handleDeleteTransaction confirmed i st =
     (if confirmed then st\<lparr>transactions := filter (\<lambda>tx. tx_id tx \<noteq> i) (transactions st)\<rparr>
      else st)"

text \<open>
  The value of a call of \<open>handleDeleteTransaction\<close>. The body of the arrow function is a
  block with no \<open>return\<close> statement on either branch of the \<open>if\<close>, so the call evaluates
  to \<open>undefined\<close>, written \<open>None\<close>, whatever the answer, the id and the state.
\<close>

definition handleDeleteTransaction_result :: "bool \<Rightarrow> js_string \<Rightarrow> App \<Rightarrow> js_value option" where
  "handleDeleteTransaction_result confirmed i st = None"

definition myMoneyTransactions :: "Transaction list \<Rightarrow> Transaction list" where
  "myMoneyTransactions txs = filter (\<lambda>tx. tx_type tx = MyMoney) txs"

definition dadsDebtTransactions :: "Transaction list \<Rightarrow> Transaction list" where
  "dadsDebtTransactions txs = filter (\<lambda>tx. tx_type tx = DadsDebt) txs"

definition myMoneyTotal :: "Transaction list \<Rightarrow> number" where
  "myMoneyTotal txs =
     reduce (\<lambda>sum tx. js_add sum (amount tx)) (Finite 0 0) (myMoneyTransactions txs)"

definition dadsDebtTotal :: "Transaction list \<Rightarrow> number" where
  "dadsDebtTotal txs =
     reduce (\<lambda>sum tx. js_add sum (amount tx)) (Finite 0 0) (dadsDebtTransactions txs)"

text \<open>The two aggregations of the specification, each the memoised value of its type.\<close>

definition byType :: "Transaction list \<Rightarrow> TransactionType \<Rightarrow> Transaction list" where
  "byType s T = (case T of MyMoney \<Rightarrow> myMoneyTransactions s | DadsDebt \<Rightarrow> dadsDebtTransactions s)"

definition totalFor :: "Transaction list \<Rightarrow> TransactionType \<Rightarrow> number" where
  "totalFor s T = (case T of MyMoney \<Rightarrow> myMoneyTotal s | DadsDebt \<Rightarrow> dadsDebtTotal s)"

text \<open>
  The sum of a sequence of numbers as the specification words it: the numbers added one
  after the other to 0.
\<close>

fun sum_from :: "number \<Rightarrow> number list \<Rightarrow> number" where
  "sum_from acc [] = acc"
| "sum_from acc (x # xs) = sum_from (js_add acc x) xs"

definition sum_of :: "number list \<Rightarrow> number" where
  "sum_of xs = sum_from (Finite 0 0) xs"

subsection \<open>Persistence\<close>

text \<open>A record as the value it is at run time; the keys are in the order of line 98.\<close>

definition to_js :: "Transaction \<Rightarrow> js_value" where
  "to_js tx =
     Object
       [(ascii ''id'', String (tx_id tx)),
        (ascii ''amount'', Number (amount tx)),
        (ascii ''description'', String (description tx)),
        (ascii ''date'', String (date tx)),
        (ascii ''type'',
           String (case tx_type tx of MyMoney \<Rightarrow> ascii ''myMoney'' | DadsDebt \<Rightarrow> ascii ''dadsDebt''))]"

text \<open>
  The initialiser of the \<open>transactions\<close> state (lines 72 to 80). Its argument is what
  \<open>localStorage.getItem\<close> returns, \<open>None\<close> for \<open>null\<close>. The \<open>catch\<close> branch is where
  \<open>JSON_parse\<close> is \<open>None\<close>.
\<close>

definition load :: "js_string option \<Rightarrow> js_value" where
  "load savedTransactions =
     (case savedTransactions of
        None \<Rightarrow> Array []
      | Some text \<Rightarrow>
          if truthy text then (case JSON_parse text of Some v \<Rightarrow> v | None \<Rightarrow> Array [])
          else Array [])"

text \<open>The text that the effect of lines 86 to 88 stores.\<close>

definition save :: "Transaction list \<Rightarrow> js_string" where
  "save txs = JSON_stringify (Array (map to_js txs))"

text \<open>
  The component with its slot of the local storage and the number of \<open>setItem\<close> calls
  made. The effect runs after each render in which \<open>transactions\<close> is a new array:
  after a submit that passed the check and after a confirmed delete.
\<close>

record World =
  app :: App
  localStorage :: "js_string option"
  setItem_calls :: nat

definition persist :: "World \<Rightarrow> World" where
  "persist w =
     w\<lparr>localStorage := Some (save (transactions (app w))), setItem_calls := Suc (setItem_calls w)\<rparr>"

definition submit ::
  "(js_string \<Rightarrow> int) \<Rightarrow> js_string \<Rightarrow> js_string \<Rightarrow> World \<Rightarrow> World \<times> alert option" where
  "submit getTime uuid now w =
     (case handleAddTransaction getTime uuid now (app w) of
        Inl a \<Rightarrow> (w, Some a)
      | Inr st \<Rightarrow> (persist (w\<lparr>app := st\<rparr>), None))"

definition press_delete :: "bool \<Rightarrow> js_string \<Rightarrow> World \<Rightarrow> World" where
  "press_delete confirmed i w =
     (if confirmed then persist (w\<lparr>app := handleDeleteTransaction confirmed i (app w)\<rparr>) else w)"

text \<open>
  Modelled from the spec: the shape that section 6 gives the stored records (an array
  of objects with the string fields \<open>id\<close>, \<open>description\<close>, \<open>date\<close>, a number
  \<open>amount\<close> and a \<open>type\<close> that is one of the two tags). The source has no check of
  it.
\<close>

definition has_string :: "(js_string \<times> js_value) list \<Rightarrow> js_string \<Rightarrow> bool" where
  "has_string ms k \<longleftrightarrow> (case map_of ms k of Some (String _) \<Rightarrow> True | _ \<Rightarrow> False)"

definition record_shape :: "js_value \<Rightarrow> bool" where
  "record_shape v \<longleftrightarrow>
     (case v of
        Object ms \<Rightarrow>
          has_string ms (ascii ''id'') \<and> has_string ms (ascii ''description'')
          \<and> has_string ms (ascii ''date'')
          \<and> (case map_of ms (ascii ''amount'') of Some (Number _) \<Rightarrow> True | _ \<Rightarrow> False)
          \<and> (map_of ms (ascii ''type'') = Some (String (ascii ''myMoney''))
               \<or> map_of ms (ascii ''type'') = Some (String (ascii ''dadsDebt'')))
      | _ \<Rightarrow> False)"

definition collection_shape :: "js_value \<Rightarrow> bool" where
  "collection_shape v \<longleftrightarrow> (case v of Array vs \<Rightarrow> list_all record_shape vs | _ \<Rightarrow> False)"

section \<open>Sequences of commands\<close>

text \<open>
  The two commands the component accepts. \<open>Add a d T uuid now\<close> fills the form with the
  amount text \<open>a\<close>, the description \<open>d\<close> and the type \<open>T\<close> and submits it;
  \<open>Delete confirmed i\<close> presses the delete button of the record \<open>i\<close> and answers the
  prompt.
\<close>

datatype command =
  is_Add: Add js_string js_string TransactionType js_string js_string
| Delete bool js_string

definition fill :: "js_string \<Rightarrow> js_string \<Rightarrow> TransactionType \<Rightarrow> App \<Rightarrow> App" where
  "fill a d T st = st\<lparr>newAmount := a, newDescription := d, newType := T\<rparr>"

definition addTransaction ::
  "(js_string \<Rightarrow> int) \<Rightarrow> js_string \<Rightarrow> js_string \<Rightarrow> TransactionType \<Rightarrow> js_string \<Rightarrow> js_string \<Rightarrow>
     App \<Rightarrow> alert + App" where
  "addTransaction getTime a d T uuid now st = handleAddTransaction getTime uuid now (fill a d T st)"

fun step :: "(js_string \<Rightarrow> int) \<Rightarrow> App \<Rightarrow> command \<Rightarrow> App" where
  "step getTime st (Add a d T uuid now) =
     (case addTransaction getTime a d T uuid now st of
        Inl _ \<Rightarrow> fill a d T st
      | Inr st' \<Rightarrow> st')"
| "step getTime st (Delete confirmed i) = handleDeleteTransaction confirmed i st"

definition run :: "(js_string \<Rightarrow> int) \<Rightarrow> App \<Rightarrow> command list \<Rightarrow> App" where
  "run getTime st cs = foldl (step getTime) st cs"

text \<open>The records that the accepted \<open>Add\<close> commands of a sequence create, in order.\<close>

fun created :: "command list \<Rightarrow> Transaction list" where
  "created [] = []"
| "created (Add a d T uuid now # cs) =
     (if \<not> truthy (trim d) \<or> isNaN (parseFloat a) then created cs
      else \<lparr>tx_id = uuid, amount = parseFloat a, description = d, date = now, tx_type = T\<rparr>
             # created cs)"
| "created (Delete confirmed i # cs) = created cs"

text \<open>Every \<open>Add\<close> of the sequence comes with an id that no record has at that moment.\<close>

fun fresh_ids :: "(js_string \<Rightarrow> int) \<Rightarrow> App \<Rightarrow> command list \<Rightarrow> bool" where
  "fresh_ids getTime st [] \<longleftrightarrow> True"
| "fresh_ids getTime st (c # cs) \<longleftrightarrow>
     (case c of Add a d T uuid now \<Rightarrow> uuid \<notin> tx_id ` set (transactions st) | Delete _ _ \<Rightarrow> True)
     \<and> fresh_ids getTime (step getTime st c) cs"

definition newest_first_sorted :: "(js_string \<Rightarrow> int) \<Rightarrow> Transaction list \<Rightarrow> bool" where
  "newest_first_sorted getTime txs \<longleftrightarrow> sorted_wrt (\<lambda>a b. getTime (date b) \<le> getTime (date a)) txs"

definition same_time :: "(js_string \<Rightarrow> int) \<Rightarrow> int \<Rightarrow> Transaction list \<Rightarrow> Transaction list" where
  "same_time getTime k txs = filter (\<lambda>tx. getTime (date tx) = k) txs"

subsection \<open>The scenario of the specification\<close>

definition clock :: "js_string \<Rightarrow> int" where
  "clock s = digits_value s"

definition gift :: Transaction where
  "gift = \<lparr>tx_id = ascii ''id-1'', amount = Finite 25 3, description = ascii ''Gift'',
            date = ascii ''1000'', tx_type = MyMoney\<rparr>"

definition spent :: Transaction where
  "spent = \<lparr>tx_id = ascii ''id-2'', amount = Finite (- 25) 1, description = ascii ''Spent'',
             date = ascii ''2000'', tx_type = DadsDebt\<rparr>"

definition empty_app :: App where
  "empty_app = \<lparr>transactions = [], newAmount = [], newDescription = [], newType = MyMoney\<rparr>"

definition scenario :: "command list" where
  "scenario =
     [Add (ascii ''200'') (ascii ''Gift'') MyMoney (ascii ''id-1'') (ascii ''1000''),
      Add (ascii ''-50'') (ascii ''Spent'') DadsDebt (ascii ''id-2'') (ascii ''2000'')]"

text \<open>The same two adds within one millisecond.\<close>

definition tied :: "command list" where
  "tied =
     [Add (ascii ''200'') (ascii ''Gift'') MyMoney (ascii ''id-1'') (ascii ''1000''),
      Add (ascii ''-50'') (ascii ''Spent'') DadsDebt (ascii ''id-2'') (ascii ''1000'')]"

section \<open>Aggregation\<close>

lemma reduce_amounts:
  "reduce (\<lambda>sum tx. js_add sum (amount tx)) acc txs = sum_from acc (map amount txs)"
  by (induction txs arbitrary: acc) (simp_all add: reduce_def)

lemma byType_filter: "byType s T = filter (\<lambda>tx. tx_type tx = T) s"
  by (cases T) (simp_all add: byType_def myMoneyTransactions_def dadsDebtTransactions_def)

lemma totalFor_byType: "totalFor s T = sum_of (map amount (byType s T))"
  by (cases T)
    (simp_all add: totalFor_def byType_def myMoneyTotal_def dadsDebtTotal_def reduce_amounts
      sum_of_def)

text \<open>
  C1. For every snapshot and each of the two types, the total of the type is the sum of
  the amounts of exactly the records of that type, in the order of the snapshot, and it
  is 0 for the empty snapshot and for a snapshot with no record of the type.
\<close>

theorem totalFor_is_sum_of_matching:
  "totalFor s T = sum_of (map amount (filter (\<lambda>tx. tx_type tx = T) s))
   \<and> totalFor [] T = Finite 0 0
   \<and> (filter (\<lambda>tx. tx_type tx = T) s = [] \<longrightarrow> totalFor s T = Finite 0 0)"
  by (simp add: totalFor_byType byType_filter sum_of_def)

theorem totalFor_is_sum_of_matching_witness:
  "filter (\<lambda>tx. tx_type tx = DadsDebt) [gift] = []
   \<and> totalFor [gift] DadsDebt = Finite 0 0
   \<and> totalFor [spent, gift] MyMoney = sum_of [Finite 25 3]"
  using totalFor_is_sum_of_matching [of "[gift]" DadsDebt]
    totalFor_is_sum_of_matching [of "[spent, gift]" MyMoney]
  by (simp add: gift_def spent_def sum_of_def)

text \<open>
  C6. For every snapshot the records of type MyMoney and those of type DadsDebt are
  disjoint, each list is a subsequence of the snapshot (the order is kept), and the two
  together hold every record of the snapshot, as sets and with multiplicities.
\<close>

theorem byType_partition:
  "set (byType s MyMoney) \<inter> set (byType s DadsDebt) = {}
   \<and> subseq (byType s MyMoney) s \<and> subseq (byType s DadsDebt) s
   \<and> set (byType s MyMoney) \<union> set (byType s DadsDebt) = set s
   \<and> mset (byType s MyMoney) + mset (byType s DadsDebt) = mset s"
proof -
  have other: "(\<lambda>tx. tx_type tx = DadsDebt) = (\<lambda>tx. \<not> tx_type tx = MyMoney)"
    by (rule ext) (metis TransactionType.exhaust TransactionType.distinct(1))
  have "set (byType s MyMoney) \<inter> set (byType s DadsDebt) = {}"
    by (auto simp: byType_filter)
  moreover have "subseq (byType s MyMoney) s" "subseq (byType s DadsDebt) s"
    by (simp_all add: byType_filter)
  moreover have "set (byType s MyMoney) \<union> set (byType s DadsDebt) = set s"
    by (auto simp: byType_filter other)
  moreover have "mset (byType s MyMoney) + mset (byType s DadsDebt) = mset s"
    by (simp add: byType_filter other)
  ultimately show ?thesis by simp
qed

section \<open>Sorting\<close>

lemma mset_insert_sorted: "mset (insert_sorted c x ys) = add_mset x (mset ys)"
  by (induction ys) simp_all

lemma mset_js_sort: "mset (js_sort c xs) = mset xs"
  by (induction xs) (simp_all add: js_sort_def mset_insert_sorted)

lemma set_insert_sorted: "set (insert_sorted c x ys) = insert x (set ys)"
  using mset_insert_sorted [of c x ys, THEN arg_cong, of set_mset] by simp

lemma js_sort_Cons: "js_sort c (x # xs) = insert_sorted c x (js_sort c xs)"
  by (simp add: js_sort_def)

lemma sorted_insert_sorted:
  "newest_first_sorted g ys \<Longrightarrow> newest_first_sorted g (insert_sorted (newest_first g) x ys)"
  by (induction ys)
    (auto simp: newest_first_sorted_def newest_first_def set_insert_sorted)

lemma sorted_js_sort: "newest_first_sorted g (js_sort (newest_first g) xs)"
proof (induction xs)
  case Nil
  show ?case by (simp add: js_sort_def newest_first_sorted_def)
next
  case (Cons x xs)
  then show ?case by (simp add: js_sort_Cons sorted_insert_sorted)
qed

lemma same_time_insert_sorted:
  "same_time g k (insert_sorted (newest_first g) x ys) = same_time g k (x # ys)"
  by (induction ys) (auto simp: same_time_def newest_first_def)

lemma same_time_js_sort: "same_time g k (js_sort (newest_first g) xs) = same_time g k xs"
proof (induction xs)
  case Nil
  show ?case by (simp add: js_sort_def)
next
  case (Cons x xs)
  have "same_time g k (js_sort (newest_first g) (x # xs))
        = same_time g k (x # js_sort (newest_first g) xs)"
    by (simp add: js_sort_Cons same_time_insert_sorted)
  with Cons show ?case by (simp add: same_time_def)
qed

lemma same_time_append: "same_time g k (xs @ ys) = same_time g k xs @ same_time g k ys"
  by (simp add: same_time_def)

lemma sorted_filter: "newest_first_sorted g xs \<Longrightarrow> newest_first_sorted g (filter P xs)"
  by (simp add: newest_first_sorted_def sorted_wrt_filter)

section \<open>One command\<close>

lemma handleAddTransaction_cases:
  "handleAddTransaction g uuid now st =
     (if \<not> truthy (trim (newDescription st)) \<or> isNaN (parseFloat (newAmount st))
      then Inl FillAllFields
      else Inr (st\<lparr>transactions :=
                      js_sort (newest_first g)
                        (transactions st @ [newTransaction uuid (parseFloat (newAmount st)) now st]),
                    newAmount := [], newDescription := []\<rparr>))"
  by (simp add: handleAddTransaction_def Let_def)

lemma transactions_step_Add:
  "transactions (step g st (Add a d T uuid now)) =
     (if \<not> truthy (trim d) \<or> isNaN (parseFloat a) then transactions st
      else js_sort (newest_first g)
             (transactions st @
              [\<lparr>tx_id = uuid, amount = parseFloat a, description = d, date = now, tx_type = T\<rparr>]))"
  by (simp add: addTransaction_def handleAddTransaction_cases fill_def newTransaction_def)

lemma transactions_step_Delete:
  "transactions (step g st (Delete confirmed i)) =
     (if confirmed then filter (\<lambda>tx. tx_id tx \<noteq> i) (transactions st) else transactions st)"
  by (simp add: handleDeleteTransaction_def)

declare step.simps [simp del]

lemma run_Nil: "run g st [] = st"
  by (simp add: run_def)

lemma run_Cons: "run g st (c # cs) = run g (step g st c) cs"
  by (simp add: run_def)

section \<open>Ordering of the collection\<close>

lemma transactions_step_same_time:
  "same_time g k (transactions (step g st (Add a d T uuid now)))
   = same_time g k (transactions st @ created [Add a d T uuid now])"
  by (simp add: transactions_step_Add same_time_js_sort)

lemma transactions_step_mset:
  "mset (transactions (step g st (Add a d T uuid now)))
   = mset (transactions st @ created [Add a d T uuid now])"
  by (simp add: transactions_step_Add mset_js_sort)

lemma transactions_step_sorted:
  "newest_first_sorted g (transactions st) \<Longrightarrow> newest_first_sorted g (transactions (step g st c))"
  by (cases c) (simp_all add: transactions_step_Add transactions_step_Delete sorted_js_sort sorted_filter)

lemma created_Cons: "is_Add c \<Longrightarrow> created (c # cs) = created [c] @ created cs"
  by (cases c) simp_all

text \<open>
  C2. Starting from a collection that is sorted newest first, after any sequence of add
  commands the collection is sorted newest first; the records of one and the same time
  are those of the starting collection in their order followed by the created ones in
  the order of their creation; and no record is lost or invented.
\<close>

theorem adds_keep_newest_first:
  assumes "newest_first_sorted g (transactions st)" and "list_all is_Add cs"
  shows "newest_first_sorted g (transactions (run g st cs))
         \<and> (\<forall>k. same_time g k (transactions (run g st cs))
                  = same_time g k (transactions st @ created cs))
         \<and> mset (transactions (run g st cs)) = mset (transactions st @ created cs)"
  using assms
proof (induction cs arbitrary: st)
  case Nil
  then show ?case by (simp add: run_Nil)
next
  case (Cons c cs)
  from Cons.prems obtain a d T uuid now where c: "c = Add a d T uuid now"
    by (cases c) simp_all
  let ?st = "step g st c"
  have sorted: "newest_first_sorted g (transactions ?st)"
    using Cons.prems(1) by (rule transactions_step_sorted)
  have rest: "list_all is_Add cs"
    using Cons.prems(2) by simp
  note IH = Cons.IH [OF sorted rest]
  have split: "created (c # cs) = created [c] @ created cs"
    using Cons.prems(2) by (intro created_Cons) simp
  have "same_time g k (transactions (run g st (c # cs)))
        = same_time g k (transactions st @ created (c # cs))" for k
  proof -
    have "same_time g k (transactions (run g ?st cs))
          = same_time g k (transactions ?st) @ same_time g k (created cs)"
      using IH by (simp add: same_time_append)
    also have "same_time g k (transactions ?st) = same_time g k (transactions st @ created [c])"
      unfolding c by (rule transactions_step_same_time)
    finally show ?thesis
      by (simp add: run_Cons split same_time_append)
  qed
  moreover have "mset (transactions (run g st (c # cs))) = mset (transactions st @ created (c # cs))"
  proof -
    have "mset (transactions (run g ?st cs)) = mset (transactions ?st) + mset (created cs)"
      using IH by simp
    also have "mset (transactions ?st) = mset (transactions st @ created [c])"
      unfolding c by (rule transactions_step_mset)
    finally show ?thesis
      by (simp add: run_Cons split)
  qed
  moreover have "newest_first_sorted g (transactions (run g st (c # cs)))"
    using IH by (simp add: run_Cons)
  ultimately show ?case by blast
qed

theorem adds_keep_newest_first_witness:
  "newest_first_sorted clock (transactions empty_app) \<and> list_all is_Add tied
   \<and> newest_first_sorted clock (transactions (run clock empty_app tied))
   \<and> same_time clock 1000 (transactions (run clock empty_app tied)) = created tied
   \<and> map tx_id (transactions (run clock empty_app tied)) = [ascii ''id-1'', ascii ''id-2'']
   \<and> map tx_id (transactions (run clock empty_app scenario)) = [ascii ''id-2'', ascii ''id-1'']"
proof -
  have h1: "newest_first_sorted clock (transactions empty_app)"
    by (simp add: empty_app_def newest_first_sorted_def)
  have h2: "list_all is_Add tied"
    by (simp add: tied_def)
  have "map tx_id (transactions (run clock empty_app tied)) = [ascii ''id-1'', ascii ''id-2'']"
    by code_simp
  moreover have "map tx_id (transactions (run clock empty_app scenario)) = [ascii ''id-2'', ascii ''id-1'']"
    by code_simp
  moreover have "same_time clock 1000 (created tied) = created tied"
    by code_simp
  ultimately show ?thesis
    using adds_keep_newest_first [OF h1 h2] h1 h2 by (simp add: empty_app_def)
qed

section \<open>Uniqueness of ids\<close>

lemma distinct_ids_js_sort:
  "distinct (map tx_id (js_sort c xs)) \<longleftrightarrow> distinct (map tx_id xs)"
proof -
  have "mset (map tx_id (js_sort c xs)) = mset (map tx_id xs)"
    by (simp add: mset_js_sort)
  then show ?thesis by (rule mset_eq_imp_distinct_iff)
qed

lemma distinct_ids_step:
  assumes "distinct (map tx_id (transactions st))"
    and "case c of Add a d T uuid now \<Rightarrow> uuid \<notin> tx_id ` set (transactions st) | Delete _ _ \<Rightarrow> True"
  shows "distinct (map tx_id (transactions (step g st c)))"
proof (cases c)
  case (Add a d T uuid now)
  with assms show ?thesis
    by (simp add: transactions_step_Add distinct_ids_js_sort)
next
  case (Delete confirmed i)
  with assms show ?thesis
    by (simp add: transactions_step_Delete distinct_map_filter)
qed

text \<open>
  C5. When the ids of the collection are pairwise different and every add of a sequence
  of add and delete commands comes with an id that no record has at that moment, the
  ids of the collection are pairwise different after the sequence.
\<close>

theorem ids_stay_unique:
  assumes "distinct (map tx_id (transactions st))" and "fresh_ids g st cs"
  shows "distinct (map tx_id (transactions (run g st cs)))"
  using assms
proof (induction cs arbitrary: st)
  case Nil
  then show ?case by (simp add: run_Nil)
next
  case (Cons c cs)
  have "distinct (map tx_id (transactions (step g st c)))"
    using Cons.prems by (intro distinct_ids_step) simp_all
  moreover have "fresh_ids g (step g st c) cs"
    using Cons.prems(2) by simp
  ultimately show ?case
    by (simp add: run_Cons Cons.IH)
qed

theorem ids_stay_unique_witness:
  "distinct (map tx_id (transactions empty_app))
   \<and> fresh_ids clock empty_app (scenario @ [Delete True (ascii ''id-1'')])
   \<and> distinct (map tx_id (transactions (run clock empty_app (scenario @ [Delete True (ascii ''id-1'')]))))"
proof -
  have h1: "distinct (map tx_id (transactions empty_app))"
    by (simp add: empty_app_def)
  have h2: "fresh_ids clock empty_app (scenario @ [Delete True (ascii ''id-1'')])"
    by code_simp
  show ?thesis
    using ids_stay_unique [OF h1 h2] h1 h2 by simp
qed

section \<open>Deleting\<close>

text \<open>
  C4, as the code has it. For every collection and every id, the delete handler, once
  the user has confirmed, removes every record with the id and keeps the other records
  in their order and the form as it is; when no record has the id, the state is left
  unchanged. The handler returns no value in either case: a record was removed exactly
  when the collection got shorter.
\<close>

theorem delete_removes_matching:
  "handleDeleteTransaction True i st
     = st\<lparr>transactions := filter (\<lambda>tx. tx_id tx \<noteq> i) (transactions st)\<rparr>
   \<and> i \<notin> tx_id ` set (transactions (handleDeleteTransaction True i st))
   \<and> (i \<notin> tx_id ` set (transactions st) \<longrightarrow> handleDeleteTransaction True i st = st)
   \<and> (i \<in> tx_id ` set (transactions st)
        \<longleftrightarrow> length (transactions (handleDeleteTransaction True i st)) < length (transactions st))
   \<and> handleDeleteTransaction_result confirmed i st = None"
proof -
  have same: "filter (\<lambda>tx. tx_id tx \<noteq> i) (transactions st) = transactions st"
    if "i \<notin> tx_id ` set (transactions st)"
    using that by (intro filter_True) auto
  then have absent: "i \<notin> tx_id ` set (transactions st) \<longrightarrow> handleDeleteTransaction True i st = st"
    by (simp add: handleDeleteTransaction_def)
  have gone: "i \<notin> tx_id ` set (transactions (handleDeleteTransaction True i st))"
    by (auto simp add: handleDeleteTransaction_def)
  have "length (filter (\<lambda>tx. tx_id tx \<noteq> i) (transactions st)) < length (transactions st)"
    if "i \<in> tx_id ` set (transactions st)"
    using that by (auto intro: length_filter_less)
  moreover have "\<not> length (filter (\<lambda>tx. tx_id tx \<noteq> i) (transactions st)) < length (transactions st)"
    if "i \<notin> tx_id ` set (transactions st)"
    using that same by simp
  ultimately have "length (filter (\<lambda>tx. tx_id tx \<noteq> i) (transactions st)) < length (transactions st)
        \<longleftrightarrow> i \<in> tx_id ` set (transactions st)"
    by blast
  then have shorter: "i \<in> tx_id ` set (transactions st)
        \<longleftrightarrow> length (transactions (handleDeleteTransaction True i st)) < length (transactions st)"
    by (simp add: handleDeleteTransaction_def)
  have "handleDeleteTransaction True i st
     = st\<lparr>transactions := filter (\<lambda>tx. tx_id tx \<noteq> i) (transactions st)\<rparr>"
    by (simp add: handleDeleteTransaction_def)
  moreover have "handleDeleteTransaction_result confirmed i st = None"
    by (simp add: handleDeleteTransaction_result_def)
  ultimately show ?thesis
    using absent gone shorter by (intro conjI)
qed

theorem delete_removes_matching_witness:
  "ascii ''id-9'' \<notin> tx_id ` set [gift, spent]
   \<and> handleDeleteTransaction True (ascii ''id-9'') (empty_app\<lparr>transactions := [gift, spent]\<rparr>)
       = empty_app\<lparr>transactions := [gift, spent]\<rparr>
   \<and> transactions (handleDeleteTransaction True (ascii ''id-1'') (empty_app\<lparr>transactions := [gift, spent]\<rparr>))
       = [spent]
   \<and> handleDeleteTransaction_result True (ascii ''id-1'') (empty_app\<lparr>transactions := [gift, spent]\<rparr>)
       = None"
proof -
  have absent: "ascii ''id-9'' \<notin> tx_id ` set (transactions (empty_app\<lparr>transactions := [gift, spent]\<rparr>))"
    by (simp add: gift_def spent_def ascii_def)
  have kept: "filter (\<lambda>tx. tx_id tx \<noteq> ascii ''id-1'') [gift, spent] = [spent]"
    by (simp add: gift_def spent_def ascii_def)
  have "handleDeleteTransaction True (ascii ''id-9'') (empty_app\<lparr>transactions := [gift, spent]\<rparr>)
       = empty_app\<lparr>transactions := [gift, spent]\<rparr>"
    using absent
      delete_removes_matching [of "ascii ''id-9''" "empty_app\<lparr>transactions := [gift, spent]\<rparr>" True]
    by blast
  moreover have "transactions (handleDeleteTransaction True (ascii ''id-1'')
       (empty_app\<lparr>transactions := [gift, spent]\<rparr>)) = [spent]"
    using kept
      delete_removes_matching [of "ascii ''id-1''" "empty_app\<lparr>transactions := [gift, spent]\<rparr>" True]
    by simp
  moreover have "handleDeleteTransaction_result True (ascii ''id-1'')
       (empty_app\<lparr>transactions := [gift, spent]\<rparr>) = None"
    using
      delete_removes_matching [of "ascii ''id-1''" "empty_app\<lparr>transactions := [gift, spent]\<rparr>" True]
    by blast
  moreover have "ascii ''id-9'' \<notin> tx_id ` set [gift, spent]"
    using absent by simp
  ultimately show ?thesis
    by (intro conjI)
qed

text \<open>
  C4 as stated fails in what the delete returns: the record with the id is present, the
  user has confirmed, the record is removed, and the call does not return \<open>true\<close>.
\<close>

theorem delete_returns_no_boolean_counterexample:
  "tx_id gift \<in> tx_id ` set (transactions (empty_app\<lparr>transactions := [gift]\<rparr>))
   \<and> transactions (handleDeleteTransaction True (tx_id gift) (empty_app\<lparr>transactions := [gift]\<rparr>)) = []
   \<and> handleDeleteTransaction_result True (tx_id gift) (empty_app\<lparr>transactions := [gift]\<rparr>)
       \<noteq> Some (Boolean True)"
  by (simp add: handleDeleteTransaction_def handleDeleteTransaction_result_def)

section \<open>Adding\<close>

text \<open>
  C3, as the code has it. A submit alerts, and changes nothing, exactly when the
  description is empty or white space only once trimmed, or \<open>parseFloat\<close> finds no
  number at the start of the amount text (\<open>NaN\<close>). On the alert the collection, the
  form and the storage are as before and \<open>setItem\<close> is not called; otherwise it is
  called once.
\<close>

theorem submit_alerts_iff_blank_or_NaN:
  "(snd (submit g uuid now w) = Some FillAllFields
      \<longleftrightarrow> trim (newDescription (app w)) = [] \<or> parseFloat (newAmount (app w)) = NaN)
   \<and> (snd (submit g uuid now w) = Some FillAllFields \<longrightarrow> fst (submit g uuid now w) = w)
   \<and> (snd (submit g uuid now w) \<noteq> Some FillAllFields \<longrightarrow>
        setItem_calls (fst (submit g uuid now w)) = Suc (setItem_calls w))"
  by (simp add: submit_def handleAddTransaction_cases truthy_def isNaN_def persist_def)

theorem submit_alerts_iff_blank_or_NaN_witness:
  "snd (submit clock (ascii ''id-1'') (ascii ''1000'')
          \<lparr>app = fill [] (ascii ''x'') MyMoney empty_app, localStorage = None, setItem_calls = 0\<rparr>)
     = Some FillAllFields
   \<and> fst (submit clock (ascii ''id-1'') (ascii ''1000'')
          \<lparr>app = fill [] (ascii ''x'') MyMoney empty_app, localStorage = None, setItem_calls = 0\<rparr>)
     = \<lparr>app = fill [] (ascii ''x'') MyMoney empty_app, localStorage = None, setItem_calls = 0\<rparr>
   \<and> snd (submit clock (ascii ''id-1'') (ascii ''1000'')
          \<lparr>app = fill (ascii ''200'') (ascii ''Gift'') MyMoney empty_app, localStorage = None,
           setItem_calls = 0\<rparr>)
     \<noteq> Some FillAllFields
   \<and> setItem_calls (fst (submit clock (ascii ''id-1'') (ascii ''1000'')
          \<lparr>app = fill (ascii ''200'') (ascii ''Gift'') MyMoney empty_app, localStorage = None,
           setItem_calls = 0\<rparr>))
     = 1"
proof -
  let ?bad = "\<lparr>app = fill [] (ascii ''x'') MyMoney empty_app, localStorage = None, setItem_calls = 0\<rparr>"
  let ?good = "\<lparr>app = fill (ascii ''200'') (ascii ''Gift'') MyMoney empty_app, localStorage = None,
                setItem_calls = 0\<rparr>"
  have bad: "parseFloat (newAmount (app ?bad)) = NaN"
    by code_simp
  have good: "\<not> (trim (newDescription (app ?good)) = [] \<or> parseFloat (newAmount (app ?good)) = NaN)"
    by code_simp
  show ?thesis
    using bad good
      submit_alerts_iff_blank_or_NaN [of clock "ascii ''id-1''" "ascii ''1000''" ?bad]
      submit_alerts_iff_blank_or_NaN [of clock "ascii ''id-1''" "ascii ''1000''" ?good]
    by simp
qed

text \<open>
  C3 as stated fails: the amount text \<open>Infinity\<close> does not parse to a finite number, and
  the submit is accepted and stores the infinite amount.
\<close>

theorem submit_accepts_Infinity_counterexample:
  "\<not> isFinite (parseFloat (ascii ''Infinity''))
   \<and> truthy (trim (ascii ''Gift''))
   \<and> map amount (transactions (run clock empty_app
         [Add (ascii ''Infinity'') (ascii ''Gift'') MyMoney (ascii ''id-1'') (ascii ''1000'')]))
       = [PosInf]"
  by code_simp

text \<open>
  C10. When the description is not white space only and the amount text has a number at
  its start, the add succeeds and the collection gains one record, whose description is
  the submitted text as it was typed, untrimmed.
\<close>

theorem description_stored_verbatim:
  assumes "truthy (trim d)" and "\<not> isNaN (parseFloat a)"
  shows "\<exists>st'. addTransaction g a d T uuid now st = Inr st'
           \<and> mset (transactions st')
               = add_mset \<lparr>tx_id = uuid, amount = parseFloat a, description = d, date = now,
                           tx_type = T\<rparr>
                   (mset (transactions st))"
  using assms
  by (simp add: addTransaction_def handleAddTransaction_cases fill_def newTransaction_def
      mset_js_sort)

theorem description_stored_verbatim_witness:
  "truthy (trim (ascii ''  Gift '')) \<and> \<not> isNaN (parseFloat (ascii ''200''))
   \<and> (\<exists>st'. addTransaction clock (ascii ''200'') (ascii ''  Gift '') MyMoney (ascii ''id-1'')
               (ascii ''1000'') empty_app = Inr st'
           \<and> map description (transactions st') = [ascii ''  Gift ''])"
proof -
  have h1: "truthy (trim (ascii ''  Gift ''))"
    by code_simp
  have h2: "\<not> isNaN (parseFloat (ascii ''200''))"
    by code_simp
  from description_stored_verbatim [OF h1 h2, of clock MyMoney "ascii ''id-1''" "ascii ''1000''" empty_app]
  obtain st' where st': "addTransaction clock (ascii ''200'') (ascii ''  Gift '') MyMoney
        (ascii ''id-1'') (ascii ''1000'') empty_app = Inr st'"
    and m: "mset (transactions st')
            = {#\<lparr>tx_id = ascii ''id-1'', amount = parseFloat (ascii ''200''),
                   description = ascii ''  Gift '', date = ascii ''1000'', tx_type = MyMoney\<rparr>#}"
    by (auto simp: empty_app_def)
  from m have "map description (transactions st') = [ascii ''  Gift '']"
    by (cases "transactions st'") (auto simp: add_mset_eq_single)
  with st' h1 h2 show ?thesis
    by (intro conjI exI [of _ st'])
qed

section \<open>Loading\<close>

text \<open>
  C8, as the code has it. A stored text that is missing, empty or not JSON gives the
  empty collection; any text that is JSON gives the value it denotes, whatever its
  shape. Nothing is thrown: the function has a value for every stored text.
\<close>

theorem load_recovers_unparsable:
  "load None = Array [] \<and> load (Some []) = Array []
   \<and> (JSON_parse text = None \<longrightarrow> load (Some text) = Array [])
   \<and> (text \<noteq> [] \<and> JSON_parse text = Some v \<longrightarrow> load (Some text) = v)"
  by (simp add: load_def truthy_def)

theorem load_recovers_unparsable_witness:
  "JSON_parse (ascii ''[1,'') = None \<and> load (Some (ascii ''[1,'')) = Array []
   \<and> ascii ''[]'' \<noteq> [] \<and> JSON_parse (ascii ''[]'') = Some (Array [])
   \<and> load (Some (ascii ''[]'')) = Array []"
proof -
  have h1: "JSON_parse (ascii ''[1,'') = None"
    by code_simp
  have h2: "ascii ''[]'' \<noteq> [] \<and> JSON_parse (ascii ''[]'') = Some (Array [])"
    by code_simp
  show ?thesis
    using h1 h2 load_recovers_unparsable [of "ascii ''[1,''"]
      load_recovers_unparsable [of "ascii ''[]''" "Array []"]
    by simp
qed

text \<open>
  C8 as stated fails: the stored text \<open>[1]\<close> parses, its value is not of the shape of
  the stored records, and loading returns that value, not the empty collection.
\<close>

theorem load_keeps_wrong_shape_counterexample:
  "JSON_parse (ascii ''[1]'') = Some (Array [Number (Finite 1 0)])
   \<and> \<not> collection_shape (Array [Number (Finite 1 0)])
   \<and> load (Some (ascii ''[1]'')) = Array [Number (Finite 1 0)]
   \<and> load (Some (ascii ''[1]'')) \<noteq> Array []"
  by code_simp

section \<open>Arithmetic of the numbers\<close>

lemma normal_zero: "normal 0 e = Finite 0 0"
  by (simp add: normal.simps)

lemma normal_double: "normal (2 * m) e = normal m (e + 1)"
  by (subst normal.simps) (simp add: normal_zero)

lemma normal_shift: "normal (m * 2 ^ k) e = normal m (e + int k)"
proof (induction k arbitrary: e)
  case 0
  show ?case by simp
next
  case (Suc k)
  have "normal (m * 2 ^ Suc k) e = normal (2 * (m * 2 ^ k)) e"
    by (simp add: mult.commute mult.left_commute)
  also have "\<dots> = normal (m * 2 ^ k) (e + 1)"
    by (rule normal_double)
  also have "\<dots> = normal m (e + 1 + int k)"
    by (rule Suc.IH)
  finally show ?case by (simp add: add.commute add.left_commute)
qed

lemma normal_repr:
  "m \<noteq> 0 \<Longrightarrow> \<exists>m' e'. normal m e = Finite m' e' \<and> e \<le> e' \<and> m = m' * 2 ^ nat (e' - e)"
proof (induction m e rule: normal.induct)
  case (1 m e)
  show ?case
  proof (cases "even m")
    case True
    from True "1.prems" have half: "m div 2 \<noteq> 0" by auto
    from "1.IH" [OF "1.prems" True half] obtain m' e' where
      n: "normal (m div 2) (e + 1) = Finite m' e'" and le: "e + 1 \<le> e'"
      and eq: "m div 2 = m' * 2 ^ nat (e' - (e + 1))"
      by blast
    from le have "nat (e' - e) = Suc (nat (e' - (e + 1)))" by simp
    with eq True have "m = m' * 2 ^ nat (e' - e)" by auto
    moreover have "normal m e = Finite m' e'"
      using n "1.prems" True by (subst normal.simps) simp
    ultimately show ?thesis using le by auto
  next
    case False
    then have "normal m e = Finite m e"
      using "1.prems" by (subst normal.simps) simp
    then show ?thesis by simp
  qed
qed

lemma shl_nonneg: "0 \<le> k \<Longrightarrow> shl n k = n * 2 ^ nat k"
  by (simp add: shl_def)

lemma shl_neg: "k < 0 \<Longrightarrow> shl n k = n"
  by (simp add: shl_def)

lemma shl_one_nonpos: "k \<le> 0 \<Longrightarrow> shl 1 k = 1"
  by (simp add: shl_def)

lemma js_add_Finite_nonneg:
  assumes "0 \<le> e1" and "0 \<le> e2"
  shows "js_add (Finite m1 e1) (Finite m2 e2) = round64 (m1 * 2 ^ nat e1 + m2 * 2 ^ nat e2) 1"
proof -
  define e where "e = min e1 e2"
  have e: "0 \<le> e" "e \<le> e1" "e \<le> e2"
    using assms by (simp_all add: e_def)
  have p1: "(2::int) ^ nat e1 = 2 ^ nat (e1 - e) * 2 ^ nat e"
    using e by (simp flip: power_add add: nat_diff_distrib nat_le_eq_zle)
  have p2: "(2::int) ^ nat e2 = 2 ^ nat (e2 - e) * 2 ^ nat e"
    using e by (simp flip: power_add add: nat_diff_distrib nat_le_eq_zle)
  have "shl (shl m1 (e1 - e) + shl m2 (e2 - e)) e = m1 * 2 ^ nat e1 + m2 * 2 ^ nat e2"
    using e by (simp add: shl_nonneg p1 p2 algebra_simps)
  moreover have "shl 1 (- e) = 1"
    using e by (simp add: shl_one_nonpos)
  ultimately show ?thesis
    by (simp add: Let_def flip: e_def)
qed

lemma js_add_normal: "js_add (normal a 0) (normal b 0) = round64 (a + b) 1"
proof -
  have repr: "\<exists>m e. normal n 0 = Finite m e \<and> 0 \<le> e \<and> n = m * 2 ^ nat e" for n
  proof (cases "n = 0")
    case True
    then show ?thesis by (simp add: normal_zero)
  next
    case False
    from normal_repr [OF this, of 0] show ?thesis by simp
  qed
  from repr [of a] obtain m1 e1 where a: "normal a 0 = Finite m1 e1" "0 \<le> e1" "a = m1 * 2 ^ nat e1"
    by blast
  from repr [of b] obtain m2 e2 where b: "normal b 0 = Finite m2 e2" "0 \<le> e2" "b = m2 * 2 ^ nat e2"
    by blast
  have "js_add (normal a 0) (normal b 0) = js_add (Finite m1 e1) (Finite m2 e2)"
    by (simp only: a(1) b(1))
  also have "\<dots> = round64 (m1 * 2 ^ nat e1 + m2 * 2 ^ nat e2) 1"
    using a(2) b(2) by (rule js_add_Finite_nonneg)
  finally show ?thesis
    by (simp only: a(3) b(3))
qed

lemma ilog2_int:
  assumes "0 < p"
  shows "ilog2 p 1 = bitlen p - 1"
proof -
  have one: "bitlen 1 = 1"
    using bitlen_twopow_add_eq [of 0 0] by simp
  have nonneg: "0 \<le> bitlen p - 1"
    using assms bitlen_eq_zero_iff [of p] bitlen_nonneg [of p] by linarith
  have low: "2 ^ nat (bitlen p - 1) \<le> p"
    using bitlen_bounds [OF assms] by simp
  have "shl 1 (bitlen p - 1) \<le> shl p (- (bitlen p - 1))"
  proof (cases "bitlen p - 1 = 0")
    case True
    with assms show ?thesis by (simp add: shl_def)
  next
    case False
    with nonneg have "0 < bitlen p - 1" by simp
    then show ?thesis using low by (simp add: shl_def)
  qed
  then show ?thesis
    by (simp add: ilog2_def one Let_def)
qed

lemma round_half_even_one: "round_half_even n 1 = n"
  by (simp add: round_half_even_def)

lemma round64_small_int:
  assumes "\<bar>n\<bar> < 2 ^ 53"
  shows "round64 n 1 = normal n 0"
proof (cases "n = 0")
  case True
  then show ?thesis by (simp add: round64_def normal_zero)
next
  case False
  define p where "p = \<bar>n\<bar>"
  define d where "d = bitlen p - 1"
  have p: "0 < p" "p < 2 ^ 53"
    using False assms by (simp_all add: p_def)
  have "bitlen p \<le> 53"
    using p by (simp add: bitlen_le_iff_power)
  moreover have "1 \<le> bitlen p"
    using p bitlen_eq_zero_iff [of p] bitlen_nonneg [of p] by linarith
  ultimately have d: "0 \<le> d" "d \<le> 52"
    by (simp_all add: d_def)
  have log: "ilog2 p 1 = d"
    using p by (simp add: ilog2_int d_def)
  have t: "max (d - 52) (- 1074) = d - 52"
    using d by simp
  have pos: "round64_pos p 1 = Some (p * 2 ^ nat (52 - d), d - 52)"
    using d by (simp add: round64_pos_def log t shl_nonneg shl_one_nonpos round_half_even_one)
  have sign: "(if 0 < n then p * 2 ^ nat (52 - d) else - (p * 2 ^ nat (52 - d))) = n * 2 ^ nat (52 - d)"
    by (simp add: p_def)
  have "round64 n 1 = normal (if 0 < n then p * 2 ^ nat (52 - d) else - (p * 2 ^ nat (52 - d))) (d - 52)"
    using False pos by (simp add: round64_def flip: p_def)
  then have "round64 n 1 = normal (n * 2 ^ nat (52 - d)) (d - 52)"
    by (simp only: sign)
  also have "\<dots> = normal n (d - 52 + int (nat (52 - d)))"
    by (rule normal_shift)
  also have "d - 52 + int (nat (52 - d)) = 0"
    using d by simp
  finally show ?thesis .
qed

lemma js_add_small_int: "\<bar>a + b\<bar> < 2 ^ 53 \<Longrightarrow> js_add (normal a 0) (normal b 0) = normal (a + b) 0"
  by (simp add: js_add_normal round64_small_int)


section \<open>Exact totals\<close>

lemma sum_from_small_ints:
  assumes "\<forall>x\<in>set xs. is_integer x" and "\<bar>a\<bar> + (\<Sum>x\<leftarrow>xs. \<bar>integer_value x\<bar>) < 2 ^ 53"
  shows "sum_from (normal a 0) xs = normal (a + (\<Sum>x\<leftarrow>xs. integer_value x)) 0"
  using assms
proof (induction xs arbitrary: a)
  case Nil
  show ?case by simp
next
  case (Cons x xs)
  define b where "b = integer_value x"
  have x: "x = normal b 0"
    using Cons.prems(1) by (simp add: is_integer_def b_def)
  have rest: "0 \<le> (\<Sum>x\<leftarrow>xs. \<bar>integer_value x\<bar>)"
    by (rule sum_list_nonneg) auto
  have small: "\<bar>a + b\<bar> < 2 ^ 53"
    using Cons.prems(2) rest by (simp add: b_def)
  have step: "js_add (normal a 0) x = normal (a + b) 0"
    using small by (subst x) (rule js_add_small_int)
  have "sum_from (normal (a + b) 0) xs = normal (a + b + (\<Sum>x\<leftarrow>xs. integer_value x)) 0"
  proof (rule Cons.IH)
    show "\<forall>x\<in>set xs. is_integer x"
      using Cons.prems(1) by simp
    show "\<bar>a + b\<bar> + (\<Sum>x\<leftarrow>xs. \<bar>integer_value x\<bar>) < 2 ^ 53"
      using Cons.prems(2) by (simp add: b_def)
  qed
  then show ?case
    by (simp add: step b_def add.assoc)
qed

lemma sum_list_map_mset: "mset xs = mset ys \<Longrightarrow> (\<Sum>x\<leftarrow>xs. f x) = (\<Sum>x\<leftarrow>ys. (f x :: int))"
  by (metis mset_map sum_mset_sum_list)

text \<open>
  C9, as the code has it. The total is the left-to-right sum in binary64 arithmetic
  (C1), every addition rounded to the nearest number. When the amounts of the type are
  integers whose absolute values sum to less than \<open>2 ^ 53\<close>, no addition rounds: the
  total is the exact sum and is the same for every permutation of the snapshot.
\<close>

theorem totalFor_exact_on_safe_integers:
  assumes "\<forall>tx\<in>set (byType s T). is_integer (amount tx)"
    and "(\<Sum>tx\<leftarrow>byType s T. \<bar>integer_value (amount tx)\<bar>) < 2 ^ 53"
  shows "totalFor s T = normal (\<Sum>tx\<leftarrow>byType s T. integer_value (amount tx)) 0
         \<and> (\<forall>s'. mset s' = mset s \<longrightarrow> totalFor s' T = totalFor s T)"
proof -
  have exact: "totalFor u T = normal (\<Sum>tx\<leftarrow>byType u T. integer_value (amount tx)) 0"
    if "\<forall>tx\<in>set (byType u T). is_integer (amount tx)"
      and "(\<Sum>tx\<leftarrow>byType u T. \<bar>integer_value (amount tx)\<bar>) < 2 ^ 53" for u
  proof -
    have "sum_from (normal 0 0) (map amount (byType u T))
          = normal (0 + (\<Sum>x\<leftarrow>map amount (byType u T). integer_value x)) 0"
      using that by (intro sum_from_small_ints) (simp_all add: comp_def)
    then show ?thesis
      by (simp add: totalFor_byType sum_of_def normal_zero comp_def)
  qed
  have "totalFor s' T = totalFor s T" if "mset s' = mset s" for s'
  proof -
    have m: "mset (byType s' T) = mset (byType s T)"
      using that by (simp add: byType_filter)
    then have "set (byType s' T) = set (byType s T)"
      by (rule mset_eq_setD)
    moreover have "(\<Sum>tx\<leftarrow>byType s' T. \<bar>integer_value (amount tx)\<bar>)
                   = (\<Sum>tx\<leftarrow>byType s T. \<bar>integer_value (amount tx)\<bar>)"
      using m by (rule sum_list_map_mset)
    ultimately have "totalFor s' T = normal (\<Sum>tx\<leftarrow>byType s' T. integer_value (amount tx)) 0"
      using assms by (intro exact) simp_all
    also have "(\<Sum>tx\<leftarrow>byType s' T. integer_value (amount tx))
               = (\<Sum>tx\<leftarrow>byType s T. integer_value (amount tx))"
      using m by (rule sum_list_map_mset)
    also have "normal \<dots> 0 = totalFor s T"
      using assms by (simp add: exact)
    finally show ?thesis .
  qed
  with exact [OF assms] show ?thesis by blast
qed

theorem totalFor_exact_on_safe_integers_witness:
  "list_all (\<lambda>tx. is_integer (amount tx)) (byType [gift, spent, gift] MyMoney)
   \<and> (\<Sum>tx\<leftarrow>byType [gift, spent, gift] MyMoney. \<bar>integer_value (amount tx)\<bar>) < 2 ^ 53
   \<and> totalFor [gift, spent, gift] MyMoney = Finite 25 4
   \<and> mset [gift, gift, spent] = mset [gift, spent, gift]
   \<and> totalFor [gift, gift, spent] MyMoney = totalFor [gift, spent, gift] MyMoney"
proof -
  have h1: "\<forall>tx\<in>set (byType [gift, spent, gift] MyMoney). is_integer (amount tx)"
    by code_simp
  have h2: "(\<Sum>tx\<leftarrow>byType [gift, spent, gift] MyMoney. \<bar>integer_value (amount tx)\<bar>) < 2 ^ 53"
    by code_simp
  have h3: "normal (\<Sum>tx\<leftarrow>byType [gift, spent, gift] MyMoney. integer_value (amount tx)) 0 = Finite 25 4"
    by code_simp
  have h4: "mset [gift, gift, spent] = mset [gift, spent, gift]"
    by simp
  have h5: "list_all (\<lambda>tx. is_integer (amount tx)) (byType [gift, spent, gift] MyMoney)"
    by code_simp
  show ?thesis
    using totalFor_exact_on_safe_integers [OF h1 h2] h2 h3 h4 h5 by simp
qed

text \<open>
  C9 as stated fails: the amounts \<open>9007199254740992\<close>, \<open>1\<close>, \<open>1\<close> total
  \<open>9007199254740992\<close> in this order and \<open>9007199254740994\<close> in the reverse order, and
  the amounts \<open>0.1\<close>, \<open>0.2\<close>, \<open>0.3\<close> have different totals in the two orders as well.
\<close>

theorem totalFor_order_counterexample:
  "parseFloat (ascii ''9007199254740992'') = Finite 1 53 \<and> parseFloat (ascii ''1'') = Finite 1 0
   \<and> mset [gift\<lparr>amount := Finite 1 53\<rparr>, gift\<lparr>amount := Finite 1 0\<rparr>, gift\<lparr>amount := Finite 1 0\<rparr>]
       = mset [gift\<lparr>amount := Finite 1 0\<rparr>, gift\<lparr>amount := Finite 1 0\<rparr>, gift\<lparr>amount := Finite 1 53\<rparr>]
   \<and> totalFor [gift\<lparr>amount := Finite 1 53\<rparr>, gift\<lparr>amount := Finite 1 0\<rparr>, gift\<lparr>amount := Finite 1 0\<rparr>]
         MyMoney = Finite 1 53
   \<and> totalFor [gift\<lparr>amount := Finite 1 0\<rparr>, gift\<lparr>amount := Finite 1 0\<rparr>, gift\<lparr>amount := Finite 1 53\<rparr>]
         MyMoney = Finite 4503599627370497 1
   \<and> totalFor [gift\<lparr>amount := parseFloat (ascii ''0.1'')\<rparr>, gift\<lparr>amount := parseFloat (ascii ''0.2'')\<rparr>,
                 gift\<lparr>amount := parseFloat (ascii ''0.3'')\<rparr>] MyMoney
       \<noteq> totalFor [gift\<lparr>amount := parseFloat (ascii ''0.3'')\<rparr>, gift\<lparr>amount := parseFloat (ascii ''0.2'')\<rparr>,
                   gift\<lparr>amount := parseFloat (ascii ''0.1'')\<rparr>] MyMoney"
proof -
  have "parseFloat (ascii ''9007199254740992'') = Finite 1 53 \<and> parseFloat (ascii ''1'') = Finite 1 0"
    by code_simp
  moreover have "totalFor [gift\<lparr>amount := Finite 1 53\<rparr>, gift\<lparr>amount := Finite 1 0\<rparr>, gift\<lparr>amount := Finite 1 0\<rparr>]
         MyMoney = Finite 1 53"
    by code_simp
  moreover have "totalFor [gift\<lparr>amount := Finite 1 0\<rparr>, gift\<lparr>amount := Finite 1 0\<rparr>, gift\<lparr>amount := Finite 1 53\<rparr>]
         MyMoney = Finite 4503599627370497 1"
    by code_simp
  moreover have "totalFor [gift\<lparr>amount := parseFloat (ascii ''0.1'')\<rparr>, gift\<lparr>amount := parseFloat (ascii ''0.2'')\<rparr>,
                 gift\<lparr>amount := parseFloat (ascii ''0.3'')\<rparr>] MyMoney
       \<noteq> totalFor [gift\<lparr>amount := parseFloat (ascii ''0.3'')\<rparr>, gift\<lparr>amount := parseFloat (ascii ''0.2'')\<rparr>,
                   gift\<lparr>amount := parseFloat (ascii ''0.1'')\<rparr>] MyMoney"
    by code_simp
  ultimately show ?thesis by simp
qed

section \<open>Round trip through the storage\<close>

subsection \<open>Strings\<close>

text \<open>Scanning a quoted string gives the string back, whatever follows the closing quote.\<close>

lemma unat_hex_digit: "k < 16 \<Longrightarrow> unat (hex_digit k) = (if k < 10 then 48 + k else 87 + k)"
proof -
  assume k: "k < 16"
  have "unat (word_of_nat n :: 16 word) = n" if "n < 65536" for n
    using that by (simp only: unat_of_nat) simp
  with k show ?thesis
    by (simp only: hex_digit_def split: if_split) simp
qed

lemma hex_value_hex_digit: "k < 16 \<Longrightarrow> hex_value (hex_digit k) = Some k"
  by (simp add: hex_value_def word_le_nat_alt unat_hex_digit)

lemma hex4: 
  fixes n :: nat
  shows "((n div 4096 * 16 + n div 256 mod 16) * 16 + n div 16 mod 16) * 16 + n mod 16 = n"
proof -
  have a: "n div 256 = n div 16 div 16" by (simp add: div_mult2_eq)
  have b: "n div 4096 = n div 16 div 16 div 16" by (simp add: div_mult2_eq)
  show ?thesis unfolding a b by (simp add: algebra_simps)
qed


lemma scan_unicode_escape:
  "scan_string (unicode_escape c @ cs) = map_option (\<lambda>(s, t). (c # s, t)) (scan_string cs)"
proof -
  define n where "n = unat c"
  have "unat c < 2 ^ LENGTH(16)"
    by (rule unsigned_less)
  then have n: "n < 65536"
    by (simp add: n_def)
  then have d: "n div 4096 < 16" "n div 256 mod 16 < 16" "n div 16 mod 16 < 16" "n mod 16 < 16"
    by simp_all
  have whole: "word_of_nat (((n div 4096 * 16 + n div 256 mod 16) * 16 + n div 16 mod 16) * 16 + n mod 16) = c"
    by (simp only: hex4) (simp add: n_def)
  have "scan_string (unicode_escape c @ cs)
        = scan_string (0x5C # 0x75 # hex_digit (n div 4096) # hex_digit (n div 256 mod 16)
            # hex_digit (n div 16 mod 16) # hex_digit (n mod 16) # cs)"
    by (simp add: unicode_escape_def Let_def flip: n_def)
  also have "\<dots> = map_option (\<lambda>(s, t). (c # s, t)) (scan_string cs)"
    by (simp only: scan_string.simps list.case hex_value_hex_digit [OF d(1)]
        hex_value_hex_digit [OF d(2)] hex_value_hex_digit [OF d(3)] hex_value_hex_digit [OF d(4)]
        prod.case option.case whole) simp
  finally show ?thesis .
qed

lemma short_escape_unescape: "short_escape c = Some e \<Longrightarrow> e \<noteq> 0x75 \<and> unescape e = Some c"
  by (auto simp: short_escape_def unescape_def split: if_splits)

lemma short_escape_None:
  "short_escape c = None \<Longrightarrow> c \<noteq> 0x22 \<and> c \<noteq> 0x5C"
  by (auto simp: short_escape_def split: if_splits)

lemma surrogate_plain:
  "is_high_surrogate c \<or> is_low_surrogate c \<Longrightarrow> \<not> c < 0x20 \<and> c \<noteq> 0x22 \<and> c \<noteq> 0x5C"
  by (auto simp: is_high_surrogate_def is_low_surrogate_def word_le_nat_alt word_less_nat_alt)

lemma scan_plain:
  "c \<noteq> 0x22 \<Longrightarrow> c \<noteq> 0x5C \<Longrightarrow> \<not> c < 0x20 \<Longrightarrow>
   scan_string (c # cs) = map_option (\<lambda>(s, t). (c # s, t)) (scan_string cs)"
  by simp

lemma scan_quote_units: "scan_string (quote_units s @ 0x22 # rest) = Some (s, rest)"
proof (induction s rule: quote_units.induct)
  case 1
  show ?case by simp
next
  case (2 c cs)
  show ?case
  proof (cases "short_escape c")
    case (Some e)
    with short_escape_unescape [OF Some] "2.IH"(6) [OF Some] show ?thesis
      by simp
  next
    case None
    note plain = short_escape_None [OF None]
    show ?thesis
    proof (cases "c < 0x20")
      case True
      with None "2.IH"(1) [OF None True] show ?thesis
        by (simp add: scan_unicode_escape del: scan_string.simps)
    next
      case big: False
      show ?thesis
      proof (cases "is_high_surrogate c")
        case True
        show ?thesis
        proof (cases cs)
          case Nil
          have "scan_string (unicode_escape c @ 0x22 # rest) = Some ([c], rest)"
            by (simp add: scan_unicode_escape del: scan_string.simps) simp
          with None big True Nil show ?thesis by simp
        next
          case (Cons d ds)
          show ?thesis
          proof (cases "is_low_surrogate d")
            case low: True
            from surrogate_plain [of d] low
            have d: "\<not> d < 0x20" "d \<noteq> 0x22" "d \<noteq> 0x5C" by simp_all
            have "scan_string (c # d # quote_units ds @ 0x22 # rest) = Some (c # d # ds, rest)"
              using "2.IH"(2) [OF None big True Cons low] plain big d by simp
            with None big True Cons low show ?thesis by simp
          next
            case False
            have "scan_string (unicode_escape c @ quote_units cs @ 0x22 # rest) = Some (c # cs, rest)"
              using "2.IH"(3) [OF None big True Cons False]
              by (simp add: scan_unicode_escape del: scan_string.simps)
            with None big True Cons False show ?thesis by simp
          qed
        qed
      next
        case nothigh: False
        show ?thesis
        proof (cases "is_low_surrogate c")
          case True
          have "scan_string (unicode_escape c @ quote_units cs @ 0x22 # rest) = Some (c # cs, rest)"
            using "2.IH"(4) [OF None big nothigh True]
            by (simp add: scan_unicode_escape del: scan_string.simps)
          with None big nothigh True show ?thesis by simp
        next
          case False
          have "scan_string (c # quote_units cs @ 0x22 # rest) = Some (c # cs, rest)"
            using "2.IH"(5) [OF None big nothigh False] plain big by simp
          with None big nothigh False show ?thesis by simp
        qed
      qed
    qed
  qed
qed

subsection \<open>Rounding of values that need none\<close>

text \<open>
  A fraction whose value is a finite binary64 number rounds to that number; so a decimal
  text that \<open>Number_toString\<close> produces, which denotes a value that rounds to the
  number, is read back as the number.
\<close>

lemma shl_eq: "shl n k = n * 2 ^ nat k"
  by (simp add: shl_def)

lemma pow_nat_powi: "(2::real) ^ nat k / 2 ^ nat (- k) = 2 powi k"
  by (cases "0 \<le> k") (simp_all add: power_int_def field_simps)

lemma shl_le_iff:
  assumes "0 < q"
  shows "shl q d \<le> shl p (- d) \<longleftrightarrow> 2 powi d \<le> real_of_int p / real_of_int q"
proof -
  have "shl q d \<le> shl p (- d) \<longleftrightarrow> real_of_int (q * 2 ^ nat d) \<le> real_of_int (p * 2 ^ nat (- d))"
    unfolding shl_eq by (simp only: of_int_le_iff)
  also have "\<dots> \<longleftrightarrow> real_of_int q * (2 ^ nat d / 2 ^ nat (- d)) \<le> real_of_int p"
    by (simp add: field_simps)
  also have "\<dots> \<longleftrightarrow> 2 powi d \<le> real_of_int p / real_of_int q"
    using assms by (simp add: pow_nat_powi field_simps)
  finally show ?thesis .
qed

lemma bitlen_powi:
  assumes "0 < p"
  shows "2 powi (bitlen p - 1) \<le> real_of_int p" and "real_of_int p < 2 powi bitlen p"
proof -
  from bitlen_bounds [OF assms]
  have lo: "2 ^ nat (bitlen p - 1) \<le> p" and hi: "p < 2 ^ nat (bitlen p)"
    by simp_all
  have pos: "1 \<le> bitlen p"
    using assms bitlen_eq_zero_iff [of p] bitlen_nonneg [of p] by linarith
  have "real_of_int (2 ^ nat (bitlen p - 1)) \<le> real_of_int p"
    using lo by (simp only: of_int_le_iff)
  then show "2 powi (bitlen p - 1) \<le> real_of_int p"
    using pos by (simp add: power_int_def)
  have "real_of_int p < real_of_int (2 ^ nat (bitlen p))"
    using hi by (simp only: of_int_less_iff)
  then show "real_of_int p < 2 powi bitlen p"
    using pos by (simp add: power_int_def)
qed

lemma powi_window_unique:
  fixes r :: real
  assumes "2 powi d \<le> r" "r < 2 powi (d + 1)" "2 powi d' \<le> r" "r < 2 powi (d' + 1)"
  shows "d = d'"
proof (rule ccontr)
  assume "d \<noteq> d'"
  then consider "d + 1 \<le> d'" | "d' + 1 \<le> d" by linarith
  then show False
  proof cases
    case 1
    then have "(2::real) powi (d + 1) \<le> 2 powi d'"
      by (intro power_int_increasing) simp_all
    with assms show False by linarith
  next
    case 2
    then have "(2::real) powi (d' + 1) \<le> 2 powi d"
      by (intro power_int_increasing) simp_all
    with assms show False by linarith
  qed
qed

lemma ilog2_window:
  assumes "0 < p" "0 < q"
  shows "2 powi ilog2 p q \<le> real_of_int p / real_of_int q"
    and "real_of_int p / real_of_int q < 2 powi (ilog2 p q + 1)"
proof -
  define r where "r = real_of_int p / real_of_int q"
  define d where "d = bitlen p - bitlen q"
  have rq: "r * real_of_int q = real_of_int p"
    using assms by (simp add: r_def)
  note P = bitlen_powi [OF assms(1)] and Q = bitlen_powi [OF assms(2)]
  have up: "r < 2 powi (d + 1)"
  proof -
    have "real_of_int p < 2 powi (d + 1) * 2 powi (bitlen q - 1)"
      using P(2) by (simp add: d_def flip: power_int_add)
    also have "\<dots> \<le> 2 powi (d + 1) * real_of_int q"
      using Q(1) by (intro mult_left_mono) simp_all
    finally show ?thesis
      using assms by (simp add: r_def field_simps)
  qed
  have down: "2 powi (d - 1) \<le> r"
  proof -
    have "2 powi (d - 1) * real_of_int q \<le> 2 powi (d - 1) * 2 powi bitlen q"
      using Q(2) by (intro mult_left_mono) simp_all
    also have "\<dots> = 2 powi (bitlen p - 1)"
      by (simp add: d_def flip: power_int_add)
    also have "\<dots> \<le> real_of_int p"
      by (rule P(1))
    finally show ?thesis
      using assms by (simp add: r_def field_simps)
  qed
  have test: "shl q d \<le> shl p (- d) \<longleftrightarrow> 2 powi d \<le> r"
    unfolding r_def by (rule shl_le_iff [OF assms(2)])
  have "2 powi ilog2 p q \<le> r \<and> r < 2 powi (ilog2 p q + 1)"
  proof (cases "2 powi d \<le> r")
    case True
    then have "ilog2 p q = d"
      using test by (simp add: ilog2_def Let_def flip: d_def)
    with True up show ?thesis by simp
  next
    case False
    then have "ilog2 p q = d - 1"
      using test by (simp add: ilog2_def Let_def flip: d_def)
    with False down show ?thesis by simp
  qed
  then show "2 powi ilog2 p q \<le> real_of_int p / real_of_int q"
    and "real_of_int p / real_of_int q < 2 powi (ilog2 p q + 1)"
    by (simp_all add: r_def)
qed

lemma ilog2_unique:
  assumes "0 < p" "0 < q"
    and "2 powi d \<le> real_of_int p / real_of_int q" "real_of_int p / real_of_int q < 2 powi (d + 1)"
  shows "ilog2 p q = d"
  using ilog2_window [OF assms(1,2)] assms(3,4) by (rule powi_window_unique)


lemma round_half_even_exact: "0 < d \<Longrightarrow> round_half_even (x * d) d = x"
  by (simp add: round_half_even_def)

lemma round64_pos_exact:
  assumes "0 < P" "0 < Q" "0 < M" "M < 2 ^ 53" "- 1074 \<le> E" "bitlen M + E \<le> 1024"
    and val: "real_of_int P / real_of_int Q = real_of_int M * 2 powi E"
  shows "\<exists>t. t \<le> E \<and> round64_pos P Q = Some (M * 2 ^ nat (E - t), t)"
proof -
  define t where "t = max (bitlen M + E - 53) (- 1074)"
  have bl: "bitlen M \<le> 53"
    using assms(4) by (simp add: bitlen_le_iff_power)
  have t: "t \<le> E" "- 1074 \<le> t"
    using bl assms(5) by (simp_all add: t_def)
  note Mb = bitlen_powi [OF assms(3)]
  have "ilog2 P Q = bitlen M - 1 + E"
  proof (rule ilog2_unique [OF assms(1,2)])
    have "2 powi (bitlen M - 1 + E) = 2 powi (bitlen M - 1) * (2::real) powi E"
      by (simp add: power_int_add)
    also have "\<dots> \<le> real_of_int M * 2 powi E"
      using Mb(1) by (intro mult_right_mono) simp_all
    finally show "2 powi (bitlen M - 1 + E) \<le> real_of_int P / real_of_int Q"
      by (simp only: val)
    have "real_of_int M * 2 powi E < 2 powi bitlen M * (2::real) powi E"
      using Mb(2) by (intro mult_strict_right_mono) simp_all
    also have "\<dots> = 2 powi (bitlen M - 1 + E + 1)"
      by (simp add: power_int_add)
    finally show "real_of_int P / real_of_int Q < 2 powi (bitlen M - 1 + E + 1)"
      by (simp only: val)
  qed
  then have log: "max (ilog2 P Q - 52) (- 1074) = t"
    by (simp add: t_def)
  have Pval: "real_of_int P = real_of_int M * 2 powi E * real_of_int Q"
    using val assms(2) by (simp add: field_simps)
  have "real_of_int (P * 2 ^ nat (- t)) = real_of_int (M * 2 ^ nat (E - t) * (Q * 2 ^ nat t))"
  proof -
    have e: "(2::real) ^ nat (E - t) = 2 powi (E - t)"
      using t by (simp add: power_int_def)
    have "real_of_int (M * 2 ^ nat (E - t) * (Q * 2 ^ nat t))
          = real_of_int M * real_of_int Q * (2 powi (E - t) * 2 ^ nat t)"
      by (simp add: e)
    also have "2 powi (E - t) * (2::real) ^ nat t = 2 powi E * 2 ^ nat (- t)"
    proof -
      have "(2::real) ^ nat t = 2 powi t * 2 ^ nat (- t)"
        using pow_nat_powi [of t] by (simp add: field_simps)
      then have "2 powi (E - t) * (2::real) ^ nat t = (2 powi (E - t) * 2 powi t) * 2 ^ nat (- t)"
        by simp
      also have "2 powi (E - t) * (2::real) powi t = 2 powi E"
        by (simp flip: power_int_add)
      finally show ?thesis .
    qed
    finally have rhs: "real_of_int (M * 2 ^ nat (E - t) * (Q * 2 ^ nat t))
          = real_of_int M * real_of_int Q * (2 powi E * 2 ^ nat (- t))" .
    have lhs: "real_of_int (P * 2 ^ nat (- t))
          = real_of_int M * real_of_int Q * (2 powi E * 2 ^ nat (- t))"
      by (simp add: Pval)
    show ?thesis
      by (simp only: lhs rhs)
  qed
  then have scaled: "P * 2 ^ nat (- t) = M * 2 ^ nat (E - t) * (Q * 2 ^ nat t)"
    by (simp only: of_int_eq_iff)
  have m: "round_half_even (shl P (- t)) (shl Q t) = M * 2 ^ nat (E - t)"
    unfolding shl_eq scaled using assms(2) by (intro round_half_even_exact) simp
  have no_overflow: "\<not> (971 \<le> t \<and> 2 ^ 53 \<le> shl (M * 2 ^ nat (E - t)) (t - 971))"
  proof
    assume a: "971 \<le> t \<and> 2 ^ 53 \<le> shl (M * 2 ^ nat (E - t)) (t - 971)"
    then have big: "971 \<le> t" by simp
    have "shl (M * 2 ^ nat (E - t)) (t - 971) = M * 2 ^ (nat (E - t) + nat (t - 971))"
      by (simp add: shl_eq power_add)
    also have "nat (E - t) + nat (t - 971) = nat (E - 971)"
      using big t by simp
    finally have ge: "2 ^ 53 \<le> M * 2 ^ nat (E - 971)"
      using a by simp
    from bitlen_bounds [OF assms(3)] have "M < 2 ^ nat (bitlen M)"
      by simp
    then have "M * 2 ^ nat (E - 971) < 2 ^ nat (bitlen M) * 2 ^ nat (E - 971)"
      by (intro mult_strict_right_mono) simp_all
    also have "\<dots> = 2 ^ (nat (bitlen M) + nat (E - 971))"
      by (simp add: power_add)
    also have "\<dots> \<le> (2::int) ^ 53"
      using assms(6) big t bitlen_nonneg [of M] by (intro power_increasing) simp_all
    finally show False
      using ge by simp
  qed
  have "round64_pos P Q = Some (M * 2 ^ nat (E - t), t)"
    using no_overflow by (simp add: round64_pos_def log m Let_def)
  with t(1) show ?thesis by blast
qed

lemma round64_exact:
  assumes "0 < P" "0 < Q" "0 < M" "M < 2 ^ 53" "- 1074 \<le> E" "bitlen M + E \<le> 1024"
    and val: "real_of_int P / real_of_int Q = real_of_int M * 2 powi E"
  shows "round64 P Q = normal M E" and "round64 (- P) Q = normal (- M) E"
proof -
  from round64_pos_exact [OF assms] obtain t where t: "t \<le> E"
    and r: "round64_pos P Q = Some (M * 2 ^ nat (E - t), t)"
    by blast
  have e: "t + int (nat (E - t)) = E"
    using t by simp
  have "round64 P Q = normal (M * 2 ^ nat (E - t)) t"
    using assms(1) r by (simp add: round64_def)
  then show "round64 P Q = normal M E"
    by (simp only: normal_shift e)
  have "round64 (- P) Q = normal (- M * 2 ^ nat (E - t)) t"
    using assms(1) r by (simp add: round64_def)
  then show "round64 (- P) Q = normal (- M) E"
    by (simp only: normal_shift e)
qed

lemma normal_odd: "odd m \<Longrightarrow> normal m e = Finite m e"
  by (subst normal.simps) auto


lemma shl_ratio: "real_of_int (shl M E) / real_of_int (shl 1 (- E)) = real_of_int M * 2 powi E"
proof -
  have "real_of_int (shl M E) / real_of_int (shl 1 (- E))
        = real_of_int M * (2 ^ nat E / 2 ^ nat (- E))"
    by (simp add: shl_eq)
  then show ?thesis
    by (simp only: pow_nat_powi)
qed

lemma best_sound:
  assumes "best x p q k = Some s" "0 \<le> p" "0 < q"
  shows "0 < s \<and> decimal_number s k = x"
proof -
  obtain n d where nd: "scaled p q k = (n, d)"
    by (cases "scaled p q k")
  have "0 \<le> n" "0 < d"
    using nd assms(2,3) by (auto simp: scaled_def split: if_splits)
  then have "0 \<le> n div d"
    by (simp add: pos_imp_zdiv_nonneg_iff)
  then show ?thesis
    using assms(1) by (auto simp: best_def nd Let_def split: if_splits)
qed

lemma exact_decimal:
  fixes K :: nat
  assumes "0 < M" "M < 2 ^ 53" "- 1074 \<le> E" "bitlen M + E \<le> 1024" "- int K \<le> E"
  defines "s \<equiv> shl M E * 10 ^ K div shl 1 (- E)"
  shows "0 < s \<and> round64 s (10 ^ K) = normal M E"
proof -
  define p where "p = shl M E"
  define q where "q = shl 1 (- E)"
  define T where "T = (10::int) ^ K"
  have q: "q = 2 ^ nat (- E)" "0 < q"
    by (simp_all add: q_def shl_eq)
  have p: "0 < p"
    using assms(1) by (simp add: p_def shl_eq)
  have T: "0 < T"
    by (simp add: T_def)
  have s: "s = p * T div q"
    by (simp add: s_def p_def q_def T_def)
  have "nat (- E) \<le> K"
    using assms(5) by simp
  then have "(2::int) ^ nat (- E) dvd 2 ^ K"
    by (rule le_imp_power_dvd)
  moreover have "(2::int) ^ K dvd 10 ^ K"
    by (intro dvd_power_same) simp
  ultimately have "q dvd T"
    unfolding q(1) T_def by (rule dvd_trans)
  then have dv: "q dvd p * T"
    by (rule dvd_mult)
  then have sq: "s * q = p * T"
    by (simp add: s)
  have pos: "0 < s"
  proof (rule ccontr)
    assume "\<not> 0 < s"
    then have "s * q \<le> 0"
      using q(2) by (simp add: mult_le_0_iff)
    moreover have "0 < p * T"
      using p T by simp
    ultimately show False
      using sq by simp
  qed
  have "real_of_int (s * q) = real_of_int (p * T)"
    by (simp only: sq)
  then have "real_of_int s * real_of_int q = real_of_int p * real_of_int T"
    by simp
  then have "real_of_int s / real_of_int T = real_of_int p / real_of_int q"
    using q(2) T by (simp add: field_simps)
  also have "\<dots> = real_of_int M * 2 powi E"
    unfolding p_def q_def by (rule shl_ratio)
  finally have "round64 s T = normal M E"
    using pos T assms(1-4) by (intro round64_exact(1))
  with pos show ?thesis
    by (simp only: T_def)
qed


lemma scaled_neg: "k < 0 \<Longrightarrow> scaled p q k = (p * 10 ^ nat (- k), q)"
  by (simp add: scaled_def)

lemma decimal_number_neg: "k < 0 \<Longrightarrow> decimal_number n k = round64 n (10 ^ nat (- k))"
  by (simp add: decimal_number_def)

lemma fallback_sound:
  assumes "0 < M" "M < 2 ^ 53" "- 1074 \<le> E" "bitlen M + E \<le> 1024" "k < 0" "k \<le> E"
  defines "s \<equiv> fst (scaled (shl M E) (shl 1 (- E)) k) div snd (scaled (shl M E) (shl 1 (- E)) k)"
  shows "0 < s \<and> decimal_number s k = normal M E"
proof -
  have s: "s = shl M E * 10 ^ nat (- k) div shl 1 (- E)"
    unfolding s_def scaled_neg [OF assms(5)] by simp
  have "- int (nat (- k)) \<le> E"
    using assms(5,6) by simp
  from exact_decimal [OF assms(1-4) this] show ?thesis
    unfolding decimal_number_neg [OF assms(5)] s .
qed

lemma shortest_sound:
  assumes "0 < M" "odd M" "M < 2 ^ 53" "- 1074 \<le> E" "bitlen M + E \<le> 1024"
    and "shortest (Finite M E) (shl M E) (shl 1 (- E)) k = (s, k')"
  shows "0 < s \<and> decimal_number s k' = Finite M E"
  using assms(6)
proof (induction "Finite M E" "shl M E" "shl 1 (- E) :: int" k rule: shortest.induct)
  case (1 k)
  have pq: "0 \<le> shl M E" "0 < shl 1 (- E)"
    using assms(1) by (simp_all add: shl_eq)
  show ?case
  proof (cases "best (Finite M E) (shl M E) (shl 1 (- E)) k")
    case (Some c)
    with "1.prems" have "c = s" "k = k'"
      by (simp_all add: shortest.simps [of _ _ _ k])
    with best_sound [OF Some pq] show ?thesis by simp
  next
    case None
    show ?thesis
    proof (cases "- 1074 < k")
      case True
      with None "1.prems" have "shortest (Finite M E) (shl M E) (shl 1 (- E)) (k - 1) = (s, k')"
        by (simp add: shortest.simps [of _ _ _ k])
      with "1.hyps" [OF None True] show ?thesis by simp
    next
      case False
      have "shortest (Finite M E) (shl M E) (shl 1 (- E)) k
            = (fst (scaled (shl M E) (shl 1 (- E)) (- 1074))
                 div snd (scaled (shl M E) (shl 1 (- E)) (- 1074)), - 1074)"
        using None False by (subst shortest.simps) (simp only: option.case if_False)
      with "1.prems" have s: "s = fst (scaled (shl M E) (shl 1 (- E)) (- 1074))
                 div snd (scaled (shl M E) (shl 1 (- E)) (- 1074))"
        and k': "k' = - 1074"
        by auto
      have neg: "(- 1074 :: int) < 0" by simp
      from fallback_sound [OF assms(1,3,4,5) neg assms(4)] normal_odd [OF assms(2), of E]
      show ?thesis
        by (simp only: s k')
    qed
  qed
qed

subsection \<open>Numbers\<close>

text \<open>Scanning the text of a finite number gives the number back.\<close>

lemma digit_char:
  assumes "0 \<le> d" "d < 10"
  shows "is_digit (word_of_int (48 + d))" and "digit_value (word_of_int (48 + d)) = d"
    and "(word_of_int (48 + d) :: 16 word) = 0x30 \<longleftrightarrow> d = 0"
proof -
  define w :: "16 word" where "w = word_of_int (48 + d)"
  have "uint w = (48 + d) mod 2 ^ LENGTH(16)"
    by (simp only: w_def uint_word_of_int)
  also have "\<dots> = 48 + d"
    using assms by simp
  finally have u: "uint w = 48 + d" .
  have "is_digit w"
    using assms by (simp add: is_digit_def word_le_def u)
  then show "is_digit (word_of_int (48 + d))"
    by (simp only: w_def)
  have "digit_value w = d"
    by (simp add: digit_value_def u)
  then show "digit_value (word_of_int (48 + d)) = d"
    by (simp only: w_def)
  have "w = 0x30 \<longleftrightarrow> uint w = uint (0x30 :: 16 word)"
    by (simp only: word_uint_eq_iff)
  then have "w = 0x30 \<longleftrightarrow> d = 0"
    by (simp only: u) simp
  then show "(word_of_int (48 + d) :: 16 word) = 0x30 \<longleftrightarrow> d = 0"
    by (simp only: w_def)
qed

lemma digits_value_snoc: "digits_value (ds @ [c]) = 10 * digits_value ds + digit_value c"
  by (simp add: digits_value_def)

lemma digits_of_props:
  "0 \<le> n \<Longrightarrow> (\<forall>c\<in>set (digits_of n). is_digit c) \<and> digits_of n \<noteq> [] \<and> digits_value (digits_of n) = n
     \<and> (0 < n \<longrightarrow> hd (digits_of n) \<noteq> 0x30)"
proof (induction n rule: digits_of.induct)
  case (1 n)
  show ?case
  proof (cases "n < 10")
    case True
    then have d: "digits_of n = [word_of_int (48 + n)]"
      by (subst digits_of.simps) simp
    from digit_char [OF "1.prems" True] show ?thesis
      by (simp add: d digits_value_def)
  next
    case False
    then have d: "digits_of n = digits_of (n div 10) @ [word_of_int (48 + n mod 10)]"
      by (subst digits_of.simps) simp
    have m: "0 \<le> n mod 10" "n mod 10 < 10" by simp_all
    have q: "0 \<le> n div 10" "0 < n div 10"
      using False by simp_all
    from "1.IH" [OF False q(1)] q(2) digit_char [OF m] show ?thesis
      by (simp add: d digits_value_snoc)
  qed
qed

lemma digits_value_append:
  "digits_value (xs @ ys) = digits_value xs * 10 ^ length ys + digits_value ys"
proof (induction ys rule: rev_induct)
  case Nil
  show ?case by (simp add: digits_value_def)
next
  case (snoc y ys)
  have "digits_value (xs @ ys @ [y]) = 10 * digits_value (xs @ ys) + digit_value y"
    using digits_value_snoc [of "xs @ ys" y] by simp
  then show ?case
    by (simp add: snoc.IH digits_value_snoc algebra_simps)
qed

lemma digits_value_zeros: "digits_value (replicate j 0x30) = 0"
  by (induction j) (simp_all add: digits_value_def digit_value_def replicate_append_same foldl_conv_fold)

lemma zero_is_digit: "is_digit 0x30"
  by (simp add: is_digit_def)

lemma takeWhile_digits:
  "\<forall>c\<in>set i. is_digit c \<Longrightarrow> \<not> is_digit c \<Longrightarrow> takeWhile is_digit (i @ c # r) = i"
  by (simp add: takeWhile_append2)

lemma dropWhile_digits:
  "\<forall>c\<in>set i. is_digit c \<Longrightarrow> \<not> is_digit c \<Longrightarrow> dropWhile is_digit (i @ c # r) = c # r"
  by (simp add: dropWhile_append2)


lemma digit_not_special: "is_digit c \<Longrightarrow> c \<noteq> 0x2D \<and> c \<noteq> 0x2E \<and> c \<noteq> 0x65 \<and> c \<noteq> 0x45"
  by (auto simp: is_digit_def word_le_def)

lemma scan_exponent_none: "c \<noteq> 0x65 \<Longrightarrow> c \<noteq> 0x45 \<Longrightarrow> scan_exponent (c # r) = Some (0, c # r)"
  by (simp add: scan_exponent_def)

lemma scan_exponent_some:
  assumes "\<forall>c\<in>set ds. is_digit c" "ds \<noteq> []" "\<not> is_digit c" "sg = 0x2B \<or> sg = 0x2D"
  shows "scan_exponent (0x65 # sg # ds @ c # r)
         = Some (if sg = 0x2D then - digits_value ds else digits_value ds, c # r)"
  using assms
  by (auto simp: scan_exponent_def Let_def takeWhile_digits dropWhile_digits)

lemma scan_number_shape:
  assumes i: "\<forall>c\<in>set i. is_digit c" "i \<noteq> []" "hd i \<noteq> 0x30 \<or> length i = 1"
    and f: "\<forall>c\<in>set f. is_digit c"
    and t: "\<not> is_digit c" "c \<noteq> 0x2E"
    and ex: "scan_exponent (c # r) = Some (x, rest)"
  shows "scan_number (i @ (if f = [] then [] else 0x2E # f) @ c # r)
         = Some (decimal_number (digits_value (i @ f)) (x - int (length f)), rest)"
proof -
  obtain d i' where di: "i = d # i'"
    using i(2) by (cases i) auto
  have d: "d \<noteq> 0x2D"
    using i(1) digit_not_special [of d] by (simp add: di)
  have lead: "\<not> (hd i = 0x30 \<and> length i \<noteq> 1)"
    using i(3) by auto
  have dot: "\<not> is_digit 0x2E"
    using digit_not_special [of "0x2E"] by auto
  show ?thesis
  proof (cases "f = []")
    case True
    have tw: "takeWhile is_digit (i @ c # r) = i" and dw: "dropWhile is_digit (i @ c # r) = c # r"
      using i(1) t(1) by (simp_all add: takeWhile_digits dropWhile_digits)
    have "scan_number (i @ c # r) = Some (decimal_number (digits_value i) x, rest)"
      unfolding scan_number_def Let_def
      using d i(2) lead t(2) ex tw dw by (simp add: di)
    with True show ?thesis by simp
  next
    case False
    have tw: "takeWhile is_digit (i @ 0x2E # f @ c # r) = i"
      and dw: "dropWhile is_digit (i @ 0x2E # f @ c # r) = 0x2E # f @ c # r"
      using i(1) dot by (simp_all add: takeWhile_digits dropWhile_digits)
    have tw2: "takeWhile is_digit (f @ c # r) = f" and dw2: "dropWhile is_digit (f @ c # r) = c # r"
      using f t(1) by (simp_all add: takeWhile_digits dropWhile_digits)
    have "scan_number (i @ 0x2E # f @ c # r)
          = Some (decimal_number (digits_value (i @ f)) (x - int (length f)), rest)"
      unfolding scan_number_def Let_def
      using d i(2) lead False ex tw dw tw2 dw2 by (simp add: di)
    with False show ?thesis by simp
  qed
qed

lemma scan_number_minus:
  assumes "is_digit d"
  shows "scan_number (0x2D # d # u) = map_option (\<lambda>(v, r). (negate v, r)) (scan_number (d # u))"
proof -
  have "d \<noteq> 0x2D"
    using assms digit_not_special [of d] by simp
  with assms show ?thesis
    unfolding scan_number_def Let_def
    by (simp split: option.splits)
qed


lemma decimal_number_shift: "0 \<le> k \<Longrightarrow> decimal_number (s * 10 ^ nat k) 0 = decimal_number s k"
  by (simp add: decimal_number_def)

lemma scan_format_decimal:
  assumes "0 < s" and stop: "\<not> is_digit c" "c \<noteq> 0x2E" "c \<noteq> 0x65" "c \<noteq> 0x45"
  shows "scan_number (format_decimal s k @ c # r) = Some (decimal_number s k, c # r)
         \<and> is_digit (hd (format_decimal s k)) \<and> format_decimal s k \<noteq> []"
proof -
  define ds where "ds = digits_of s"
  define n where "n = int (length ds) + k"
  from digits_of_props [of s] assms(1)
  have ds: "\<forall>c\<in>set ds. is_digit c" "ds \<noteq> []" "digits_value ds = s" "hd ds \<noteq> 0x30"
    by (simp_all add: ds_def)
  have hd_digit: "is_digit (hd ds)"
    using ds(1,2) by (cases ds) auto
  have no_exp: "scan_exponent (c # r) = Some (0, c # r)"
    using stop by (simp add: scan_exponent_none)
  have fmt: "format_decimal s k =
     (if 0 \<le> k \<and> n \<le> 21 then ds @ replicate (nat k) 0x30
      else if 0 < n \<and> n \<le> 21 then take (nat n) ds @ [0x2E] @ drop (nat n) ds
      else if - 6 < n \<and> n \<le> 0 then [0x30, 0x2E] @ replicate (nat (- n)) 0x30 @ ds
      else (if length ds = 1 then ds else [hd ds, 0x2E] @ tl ds)
           @ [0x65, if 0 \<le> n - 1 then 0x2B else 0x2D] @ digits_of \<bar>n - 1\<bar>)"
    by (simp add: format_decimal_def Let_def ds_def n_def)
  consider (A) "0 \<le> k" "n \<le> 21"
    | (B) "k < 0" "0 < n" "n \<le> 21"
    | (C) "\<not> (0 \<le> k \<and> n \<le> 21)" "- 6 < n" "n \<le> 0"
    | (D) "\<not> (0 \<le> k \<and> n \<le> 21)" "\<not> (0 < n \<and> n \<le> 21)" "\<not> (- 6 < n \<and> n \<le> 0)"
    by linarith
  then show ?thesis
  proof cases
    case A
    define i where "i = ds @ replicate (nat k) 0x30"
    have i: "\<forall>c\<in>set i. is_digit c" "i \<noteq> []" "hd i \<noteq> 0x30 \<or> length i = 1"
      using ds by (auto simp: i_def zero_is_digit)
    have v: "digits_value (i @ []) = s * 10 ^ nat k"
      by (simp add: i_def digits_value_append digits_value_zeros ds(3))
    from scan_number_shape [OF i _ stop(1,2) no_exp, of "[]"]
    have "scan_number (i @ c # r) = Some (decimal_number (s * 10 ^ nat k) 0, c # r)"
      by (simp only: v) simp
    then have "scan_number (i @ c # r) = Some (decimal_number s k, c # r)"
      by (simp only: decimal_number_shift [OF A(1)])
    moreover have "format_decimal s k = i"
      using A by (simp add: fmt i_def)
    moreover have "hd i = hd ds"
      using ds(2) by (simp add: i_def)
    ultimately show ?thesis
      using hd_digit i(2) by simp
  next
    case B
    define i where "i = take (nat n) ds"
    define f where "f = drop (nat n) ds"
    have len: "nat n < length ds" "0 < nat n"
      using B by (simp_all add: n_def)
    have i: "\<forall>c\<in>set i. is_digit c" "i \<noteq> []" "hd i \<noteq> 0x30 \<or> length i = 1"
      using ds len by (auto simp: i_def dest: in_set_takeD)
    have f: "\<forall>c\<in>set f. is_digit c" "f \<noteq> []"
      using ds len by (auto simp: f_def dest: in_set_dropD)
    have v: "digits_value (i @ f) = s" "0 - int (length f) = k"
      using len by (simp_all add: i_def f_def ds(3) n_def)
    from scan_number_shape [OF i f(1) stop(1,2) no_exp]
    have "scan_number (i @ 0x2E # f @ c # r) = Some (decimal_number s k, c # r)"
      using f(2) by (simp only: v) simp
    moreover have "format_decimal s k = i @ 0x2E # f"
      using B by (simp add: fmt i_def f_def)
    moreover have "hd i = hd ds"
      using len by (simp add: i_def)
    ultimately show ?thesis
      using hd_digit i(2) by simp
  next
    case C
    define f where "f = replicate (nat (- n)) 0x30 @ ds"
    have i: "\<forall>c\<in>set [0x30 :: 16 word]. is_digit c" "[0x30 :: 16 word] \<noteq> []"
      "hd [0x30 :: 16 word] \<noteq> 0x30 \<or> length [0x30 :: 16 word] = 1"
      by (simp_all add: zero_is_digit)
    have f: "\<forall>c\<in>set f. is_digit c" "f \<noteq> []"
      using ds by (auto simp: f_def zero_is_digit)
    have "digits_value ([0x30] @ f) = digits_value (replicate (Suc (nat (- n))) 0x30 @ ds)"
      by (simp add: f_def)
    also have "\<dots> = s"
      by (simp only: digits_value_append digits_value_zeros ds(3) mult_zero_left add_0)
    finally have v: "digits_value ([0x30] @ f) = s" .
    have x: "0 - int (length f) = k"
      using C by (simp add: f_def n_def)
    from scan_number_shape [OF i f(1) stop(1,2) no_exp]
    have "scan_number ([0x30] @ 0x2E # f @ c # r) = Some (decimal_number s k, c # r)"
      using f(2) by (simp only: v x) simp
    moreover have "format_decimal s k = [0x30] @ 0x2E # f"
      using C by (simp add: fmt f_def)
    ultimately show ?thesis
      by (simp add: zero_is_digit)
  next
    case D
    define e1 where "e1 = n - 1"
    define sg :: "16 word" where "sg = (if 0 \<le> e1 then 0x2B else 0x2D)"
    define ed where "ed = digits_of \<bar>e1\<bar>"
    from digits_of_props [of "\<bar>e1\<bar>"]
    have ed: "\<forall>c\<in>set ed. is_digit c" "ed \<noteq> []" "digits_value ed = \<bar>e1\<bar>"
      by (simp_all add: ed_def)
    have sg: "sg = 0x2B \<or> sg = 0x2D"
      by (simp add: sg_def)
    have "(if sg = 0x2D then - digits_value ed else digits_value ed) = e1"
      by (simp add: sg_def ed(3))
    with scan_exponent_some [OF ed(1,2) stop(1) sg, of r]
    have ex: "scan_exponent (0x65 # sg # ed @ c # r) = Some (e1, c # r)"
      by simp
    have e: "\<not> is_digit 0x65" "(0x65 :: 16 word) \<noteq> 0x2E"
      using digit_not_special [of "0x65"] by auto
    have c: "(0 \<le> k \<and> n \<le> 21) = False" "(0 < n \<and> n \<le> 21) = False"
      "(- 6 < n \<and> n \<le> 0) = False"
      using D by simp_all
    have fmtD: "format_decimal s k
                = (if length ds = 1 then ds else [hd ds, 0x2E] @ tl ds) @ [0x65, sg] @ ed"
      unfolding fmt c by (simp add: sg_def ed_def e1_def)
    show ?thesis
    proof (cases "length ds = 1")
      case True
      have i: "hd ds \<noteq> 0x30 \<or> length ds = 1"
        using True by simp
      have v: "digits_value (ds @ []) = s" "e1 - int (length ([] :: js_string)) = k"
        using True by (simp_all add: ds(3) e1_def n_def)
      from scan_number_shape [OF ds(1,2) i _ e ex, of "[]"]
      have "scan_number (ds @ 0x65 # sg # ed @ c # r) = Some (decimal_number s k, c # r)"
        by (simp only: v) simp
      moreover have "format_decimal s k = ds @ 0x65 # sg # ed"
        using True by (simp add: fmtD)
      ultimately show ?thesis
        using hd_digit ds(2) by simp
    next
      case False
      obtain d u where du: "ds = d # u"
        using ds(2) by (cases ds) auto
      have u: "u \<noteq> []" "\<forall>c\<in>set u. is_digit c"
        using False ds(1) by (auto simp: du)
      have i: "\<forall>c\<in>set [d]. is_digit c" "[d] \<noteq> []" "hd [d] \<noteq> 0x30 \<or> length [d] = 1"
        using ds(1) by (simp_all add: du)
      have v: "digits_value ([d] @ u) = s" "e1 - int (length u) = k"
        using ds(3) by (simp_all add: du e1_def n_def)
      from scan_number_shape [OF i u(2) e ex]
      have "scan_number ([d] @ 0x2E # u @ 0x65 # sg # ed @ c # r) = Some (decimal_number s k, c # r)"
        using u(1) by (simp only: v) simp
      moreover have "format_decimal s k = [d] @ 0x2E # u @ 0x65 # sg # ed"
        using False by (simp add: fmtD du)
      ultimately show ?thesis
        using ds(1) by (simp add: du)
    qed
  qed
qed


lemma scan_Number_toString:
  assumes fin: "finite_binary64 (Finite m e)"
    and stop: "\<not> is_digit c" "c \<noteq> 0x2E" "c \<noteq> 0x65" "c \<noteq> 0x45"
  shows "scan_number (Number_toString (Finite m e) @ c # r) = Some (Finite m e, c # r)
         \<and> Number_toString (Finite m e) \<noteq> []
         \<and> (is_digit (hd (Number_toString (Finite m e))) \<or> hd (Number_toString (Finite m e)) = 0x2D)"
proof (cases "m = 0")
  case True
  with fin have e: "e = 0"
    by (simp add: finite_binary64_def)
  have shape: "Number_toString (Finite m e) = [0x30]"
    using True by (simp add: Number_toString_def ascii_def)
  have "scan_exponent (c # r) = Some (0, c # r)"
    using stop by (simp add: scan_exponent_none)
  from scan_number_shape [OF _ _ _ _ stop(1,2) this, of "[0x30]" "[]"]
  have "scan_number ([0x30] @ c # r) = Some (decimal_number (digits_value [0x30]) 0, c # r)"
    by (simp add: zero_is_digit)
  moreover have "decimal_number (digits_value [0x30]) 0 = Finite 0 0"
    by (simp add: decimal_number_def digits_value_def digit_value_def round64_def)
  ultimately show ?thesis
    unfolding shape by (simp add: True e zero_is_digit)
next
  case False
  define M where "M = \<bar>m\<bar>"
  from fin False have M: "0 < M" "odd M" "M < 2 ^ 53" "- 1074 \<le> e" "bitlen M + e \<le> 1024"
    by (simp_all add: finite_binary64_def M_def)
  obtain s k where sk: "shortest (Finite M e) (shl M e) (shl 1 (- e)) (ilog10 (shl M e) (shl 1 (- e)) + 1) = (s, k)"
    by (cases "shortest (Finite M e) (shl M e) (shl 1 (- e)) (ilog10 (shl M e) (shl 1 (- e)) + 1)")
  from shortest_sound [OF M sk] have s: "0 < s" and v: "decimal_number s k = Finite M e"
    by simp_all
  from scan_format_decimal [OF s stop, of k r]
  have scan: "scan_number (format_decimal s k @ c # r) = Some (Finite M e, c # r)"
    and hd: "is_digit (hd (format_decimal s k))" and ne: "format_decimal s k \<noteq> []"
    by (simp_all add: v)
  have shape: "Number_toString (Finite m e) = (if m < 0 then [0x2D] else []) @ format_decimal s k"
    using False sk by (simp add: Number_toString_def Let_def flip: M_def)
  show ?thesis
  proof (cases "m < 0")
    case True
    obtain d u where du: "format_decimal s k = d # u"
      using ne by (cases "format_decimal s k") auto
    have d: "is_digit d"
      using hd by (simp add: du)
    have "scan_number (0x2D # d # u @ c # r) = Some (negate (Finite M e), c # r)"
      using scan_number_minus [OF d, of "u @ c # r"] scan by (simp add: du)
    moreover have "negate (Finite M e) = Finite m e"
      using True by (simp add: negate_def M_def)
    ultimately show ?thesis
      using True by (simp add: shape du)
  next
    case pos: False
    then have "M = m"
      by (simp add: M_def)
    with scan hd ne pos show ?thesis
      by (simp add: shape)
  qed
qed

subsection \<open>Records and collections\<close>

lemma skip_ws_plain: "\<not> is_json_ws c \<Longrightarrow> skip_ws (c # r) = c # r"
  by (simp add: skip_ws_def)

lemma punctuation_not_ws:
  "\<not> is_json_ws 0x22" "\<not> is_json_ws 0x7B" "\<not> is_json_ws 0x5B" "\<not> is_json_ws 0x2C"
  "\<not> is_json_ws 0x5D" "\<not> is_json_ws 0x7D" "\<not> is_json_ws 0x3A"
  by (simp_all add: is_json_ws_def)

lemma number_head:
  assumes "is_digit d \<or> d = 0x2D"
  shows "\<not> is_json_ws d" "d \<noteq> 0x5B" "d \<noteq> 0x7B" "d \<noteq> 0x22" "d \<noteq> 0x74" "d \<noteq> 0x66" "d \<noteq> 0x6E"
  using assms by (auto simp: is_digit_def is_json_ws_def word_le_def)

lemma comma_stops: "\<not> is_digit 0x2C" "(0x2C :: 16 word) \<noteq> 0x2E" "(0x2C :: 16 word) \<noteq> 0x65" "(0x2C :: 16 word) \<noteq> 0x45"
  by (simp_all add: is_digit_def)

lemma parse_value_string: "parse_value (QuoteJSONString s @ rest) = Some (String s, rest)"
  by (subst parse_value.simps)
    (simp add: QuoteJSONString_def skip_ws_plain punctuation_not_ws scan_quote_units)

lemma parse_value_number:
  assumes "finite_binary64 x"
  shows "parse_value (JSON_stringify (Number x) @ 0x2C # r) = Some (Number x, 0x2C # r)"
proof -
  from assms obtain m e where x: "x = Finite m e"
    by (cases x) (simp_all add: finite_binary64_def)
  from scan_Number_toString [OF assms [unfolded x] comma_stops, of r]
  have scan: "scan_number (Number_toString x @ 0x2C # r) = Some (x, 0x2C # r)"
    and ne: "Number_toString x \<noteq> []"
    and hd: "is_digit (hd (Number_toString x)) \<or> hd (Number_toString x) = 0x2D"
    by (simp_all add: x)
  obtain d u where du: "Number_toString x = d # u"
    using ne by (cases "Number_toString x") auto
  from hd have d: "is_digit d \<or> d = 0x2D"
    by (simp add: du)
  note h = number_head [OF d]
  have "parse_value (d # u @ 0x2C # r) = Some (Number x, 0x2C # r)"
    using scan h by (subst parse_value.simps) (simp add: du skip_ws_plain ascii_def)
  moreover have "JSON_stringify (Number x) = Number_toString x"
    by (simp add: x isFinite_def)
  ultimately show ?thesis
    by (simp only: du append_Cons)
qed

lemma parse_members_more:
  assumes "parse_value (vt @ 0x2C # rest) = Some (v, 0x2C # rest)"
  shows "parse_members acc (QuoteJSONString k @ 0x3A # vt @ 0x2C # rest)
         = parse_members (set_property acc k v) rest"
  using assms
  by (subst parse_members.simps)
    (simp add: QuoteJSONString_def skip_ws_plain punctuation_not_ws scan_quote_units)

lemma parse_members_last:
  assumes "parse_value (vt @ 0x7D # rest) = Some (v, 0x7D # rest)"
  shows "parse_members acc (QuoteJSONString k @ 0x3A # vt @ 0x7D # rest)
         = Some (Object (set_property acc k v), rest)"
  using assms
  by (subst parse_members.simps)
    (simp add: QuoteJSONString_def skip_ws_plain punctuation_not_ws scan_quote_units)

lemma key_not_index:
  "\<not> is_array_index (ascii ''id'')" "\<not> is_array_index (ascii ''amount'')"
  "\<not> is_array_index (ascii ''description'')" "\<not> is_array_index (ascii ''date'')"
  "\<not> is_array_index (ascii ''type'')"
  by (simp_all add: is_array_index_def ascii_def is_digit_def)

lemma set_property_fields:
  "set_property (set_property (set_property (set_property (set_property []
       (ascii ''id'') a) (ascii ''amount'') b) (ascii ''description'') c) (ascii ''date'') d)
       (ascii ''type'') e
   = [(ascii ''id'', a), (ascii ''amount'', b), (ascii ''description'', c), (ascii ''date'', d),
      (ascii ''type'', e)]"
proof -
  have ne: "ascii ''id'' \<noteq> ascii ''amount''" "ascii ''id'' \<noteq> ascii ''description''"
    "ascii ''id'' \<noteq> ascii ''date''" "ascii ''id'' \<noteq> ascii ''type''"
    "ascii ''amount'' \<noteq> ascii ''description''" "ascii ''amount'' \<noteq> ascii ''date''"
    "ascii ''amount'' \<noteq> ascii ''type''" "ascii ''description'' \<noteq> ascii ''date''"
    "ascii ''description'' \<noteq> ascii ''type''" "ascii ''date'' \<noteq> ascii ''type''"
    by (simp_all add: ascii_def)
  show ?thesis
    by (simp add: ne key_not_index)
qed

lemma stringify_to_js:
  "JSON_stringify (to_js tx)
   = 0x7B # QuoteJSONString (ascii ''id'') @ 0x3A # QuoteJSONString (tx_id tx) @ 0x2C #
       QuoteJSONString (ascii ''amount'') @ 0x3A # JSON_stringify (Number (amount tx)) @ 0x2C #
       QuoteJSONString (ascii ''description'') @ 0x3A # QuoteJSONString (description tx) @ 0x2C #
       QuoteJSONString (ascii ''date'') @ 0x3A # QuoteJSONString (date tx) @ 0x2C #
       QuoteJSONString (ascii ''type'') @ 0x3A #
       QuoteJSONString (case tx_type tx of MyMoney \<Rightarrow> ascii ''myMoney'' | DadsDebt \<Rightarrow> ascii ''dadsDebt'')
       @ [0x7D]"
  by (simp add: to_js_def del: JSON_stringify.simps(3))

lemma parse_value_string_stop:
  "parse_value (QuoteJSONString s @ c # rest) = Some (String s, c # rest)"
  by (rule parse_value_string)

lemma parse_members_to_js:
  assumes "finite_binary64 (amount tx)"
  shows "parse_members []
      (QuoteJSONString (ascii ''id'') @ 0x3A # QuoteJSONString (tx_id tx) @ 0x2C #
       QuoteJSONString (ascii ''amount'') @ 0x3A # JSON_stringify (Number (amount tx)) @ 0x2C #
       QuoteJSONString (ascii ''description'') @ 0x3A # QuoteJSONString (description tx) @ 0x2C #
       QuoteJSONString (ascii ''date'') @ 0x3A # QuoteJSONString (date tx) @ 0x2C #
       QuoteJSONString (ascii ''type'') @ 0x3A #
       QuoteJSONString (case tx_type tx of MyMoney \<Rightarrow> ascii ''myMoney'' | DadsDebt \<Rightarrow> ascii ''dadsDebt'')
       @ 0x7D # rest)
    = Some (to_js tx, rest)"
  by (simp only: parse_members_more [OF parse_value_string_stop]
      parse_members_more [OF parse_value_number [OF assms]]
      parse_members_last [OF parse_value_string_stop]
      set_property_fields to_js_def)

lemma quote_head: "QuoteJSONString s @ r = 0x22 # quote_units s @ 0x22 # r"
  by (simp add: QuoteJSONString_def)

lemma parse_value_to_js:
  assumes "finite_binary64 (amount tx)"
  shows "parse_value (JSON_stringify (to_js tx) @ rest) = Some (to_js tx, rest)"
proof -
  let ?body = "QuoteJSONString (ascii ''id'') @ 0x3A # QuoteJSONString (tx_id tx) @ 0x2C #
       QuoteJSONString (ascii ''amount'') @ 0x3A # JSON_stringify (Number (amount tx)) @ 0x2C #
       QuoteJSONString (ascii ''description'') @ 0x3A # QuoteJSONString (description tx) @ 0x2C #
       QuoteJSONString (ascii ''date'') @ 0x3A # QuoteJSONString (date tx) @ 0x2C #
       QuoteJSONString (ascii ''type'') @ 0x3A #
       QuoteJSONString (case tx_type tx of MyMoney \<Rightarrow> ascii ''myMoney'' | DadsDebt \<Rightarrow> ascii ''dadsDebt'')
       @ 0x7D # rest"
  have whole: "JSON_stringify (to_js tx) @ rest = 0x7B # ?body"
    by (simp only: stringify_to_js append_Cons append_assoc append_Nil)
  obtain t where body: "?body = 0x22 # t"
    by (simp only: quote_head)
  have members: "parse_members [] (0x22 # t) = Some (to_js tx, rest)"
    using parse_members_to_js [OF assms, of rest] by (simp only: body)
  have "parse_value (0x7B # 0x22 # t) = Some (to_js tx, rest)"
    by (subst parse_value.simps) (simp add: skip_ws_plain punctuation_not_ws members)
  then show ?thesis
    by (simp only: whole body)
qed

lemma stringify_to_js_Cons: "\<exists>t. JSON_stringify (to_js tx) = 0x7B # t"
  by (simp only: stringify_to_js) blast

lemma stringify_to_js_nonempty: "JSON_stringify (to_js tx) \<noteq> []"
  using stringify_to_js_Cons [of tx] by auto

lemma parse_elements_more:
  assumes "parse_value (vt @ 0x2C # rest) = Some (v, 0x2C # rest)" and "vt \<noteq> []"
  shows "parse_elements acc (vt @ 0x2C # rest) = parse_elements (acc @ [v]) rest"
  using assms
  by (subst parse_elements.simps) (simp add: skip_ws_plain punctuation_not_ws)

lemma parse_elements_last:
  assumes "parse_value (vt @ 0x5D # rest) = Some (v, 0x5D # rest)" and "vt \<noteq> []"
  shows "parse_elements acc (vt @ 0x5D # rest) = Some (Array (acc @ [v]), rest)"
  using assms
  by (subst parse_elements.simps) (simp add: skip_ws_plain punctuation_not_ws)

lemma parse_elements_list:
  assumes "\<forall>tx\<in>set (x # xs). finite_binary64 (amount tx)"
  shows "parse_elements acc (join (map JSON_stringify (map to_js (x # xs))) @ 0x5D # rest)
         = Some (Array (acc @ map to_js (x # xs)), rest)"
  using assms
proof (induction xs arbitrary: x acc)
  case Nil
  then have fin: "finite_binary64 (amount x)"
    by simp
  have "parse_elements acc (JSON_stringify (to_js x) @ 0x5D # rest) = Some (Array (acc @ [to_js x]), rest)"
    by (rule parse_elements_last [OF parse_value_to_js [OF fin] stringify_to_js_nonempty])
  then show ?case
    by (simp del: JSON_stringify.simps)
next
  case (Cons y ys)
  then have fin: "finite_binary64 (amount x)"
    and rest: "\<forall>tx\<in>set (y # ys). finite_binary64 (amount tx)"
    by simp_all
  let ?tail = "join (map JSON_stringify (map to_js (y # ys))) @ 0x5D # rest"
  have "parse_elements acc (JSON_stringify (to_js x) @ 0x2C # ?tail)
        = parse_elements (acc @ [to_js x]) ?tail"
    by (rule parse_elements_more [OF parse_value_to_js [OF fin] stringify_to_js_nonempty])
  also have "\<dots> = Some (Array ((acc @ [to_js x]) @ map to_js (y # ys)), rest)"
    by (rule Cons.IH [OF rest])
  finally show ?case
    by (simp del: JSON_stringify.simps)
qed

lemma JSON_parse_save:
  assumes "\<forall>tx\<in>set S. finite_binary64 (amount tx)"
  shows "JSON_parse (save S) = Some (Array (map to_js S))"
proof (cases S)
  case Nil
  have "parse_value [0x5B, 0x5D] = Some (Array [], [])"
    by (subst parse_value.simps) (simp add: skip_ws_plain punctuation_not_ws)
  then show ?thesis
    by (simp add: Nil save_def JSON_parse_def skip_ws_def)
next
  case (Cons x xs)
  obtain t where t: "JSON_stringify (to_js x) = 0x7B # t"
    using stringify_to_js_Cons by blast
  let ?items = "join (map JSON_stringify (map to_js (x # xs))) @ [0x5D]"
  obtain u where u: "?items = 0x7B # u"
    by (cases xs) (simp_all add: t del: JSON_stringify.simps)
  have elements: "parse_elements [] (0x7B # u) = Some (Array (map to_js (x # xs)), [])"
    using parse_elements_list [OF assms [unfolded Cons], of "[]" "[]"] by (simp only: u append_Nil)
  have "parse_value (0x5B # 0x7B # u) = Some (Array (map to_js (x # xs)), [])"
    by (subst parse_value.simps) (simp add: skip_ws_plain punctuation_not_ws elements)
  moreover have "save S = 0x5B # 0x7B # u"
    using u by (simp add: save_def Cons del: JSON_stringify.simps(3,4,6) join.simps)
  ultimately show ?thesis
    by (simp add: JSON_parse_def skip_ws_def Cons)
qed

lemma to_js_inject: "to_js a = to_js b \<longleftrightarrow> a = b"
  by (cases a; cases b) (auto simp add: to_js_def ascii_def split: TransactionType.splits)

text \<open>
  C7. For every collection whose amounts are finite numbers, loading the text that
  saving the collection stores gives the collection back: the same records in the same
  order, so in particular the same set of records; and no other collection has that
  run-time value.
\<close>

theorem load_save_round_trip:
  assumes "\<forall>tx\<in>set S. finite_binary64 (amount tx)"
  shows "load (Some (save S)) = Array (map to_js S)
         \<and> (load (Some (save S)) = Array (map to_js S') \<longleftrightarrow> S' = S)"
proof -
  have "save S \<noteq> []"
    by (simp add: save_def)
  then have loaded: "load (Some (save S)) = Array (map to_js S)"
    using JSON_parse_save [OF assms] by (simp add: load_def truthy_def)
  have "inj to_js"
    by (rule injI) (simp add: to_js_inject)
  then have "map to_js S = map to_js S' \<longleftrightarrow> S = S'"
    by (rule inj_map_eq_map)
  with loaded show ?thesis
    by auto
qed

theorem load_save_round_trip_witness:
  "list_all (\<lambda>tx. finite_binary64 (amount tx)) [gift, spent, gift\<lparr>amount := parseFloat (ascii ''0.1'')\<rparr>]
   \<and> load (Some (save [gift, spent, gift\<lparr>amount := parseFloat (ascii ''0.1'')\<rparr>]))
       = Array [to_js gift, to_js spent, to_js (gift\<lparr>amount := parseFloat (ascii ''0.1'')\<rparr>)]"
proof -
  have f1: "finite_binary64 (amount gift)"
    by code_simp
  have f2: "finite_binary64 (amount spent)"
    by code_simp
  have f3: "finite_binary64 (parseFloat (ascii ''0.1''))"
    by code_simp
  show ?thesis
    using f1 f2 f3
      load_save_round_trip [of "[gift, spent, gift\<lparr>amount := parseFloat (ascii ''0.1'')\<rparr>]"]
    by simp
qed

end
